theory Spec2Isabelle
  imports Complex_Main "HOL-Library.Word" "HOL-Library.Signed_Division"
begin

unbundle bit_operations_syntax

section \<open>Values of the C program\<close>

subsection \<open>Single-precision numbers\<close>

text \<open>
  \<open>price\<close>, \<open>change\<close> and \<open>local_threshold\<close> are C \<open>float\<close>s. A finite float is the
  rational number it denotes; the two infinities are kept because a long enough decimal numeral
  overflows to one. The formatted input has no way to produce a NaN (see \<open>scan_float\<close>), so
  there is none in the type; the sign of a zero is not kept either.
\<close>

datatype cfloat = Finite rat | PInf | NInf

text \<open>The C operators \<open><\<close> and \<open>>=\<close> on floats.\<close>

fun float_less :: "cfloat \<Rightarrow> cfloat \<Rightarrow> bool" where
  "float_less (Finite x) (Finite y) = (x < y)"
| "float_less (Finite x) PInf = True"
| "float_less NInf (Finite y) = True"
| "float_less NInf PInf = True"
| "float_less a b = False"

fun float_ge :: "cfloat \<Rightarrow> cfloat \<Rightarrow> bool" where
  "float_ge (Finite x) (Finite y) = (y \<le> x)"
| "float_ge PInf b = True"
| "float_ge (Finite x) NInf = True"
| "float_ge NInf NInf = True"
| "float_ge a b = False"

text \<open>
  The cast \<open>(int)price\<close>: truncation towards zero. Outside the range of a 32-bit \<open>int\<close> ISO C
  leaves the cast undefined; the conversion instruction of the Cortex-M4F this program is
  written for saturates, which is what is modelled.
\<close>

definition INT_MAX :: int where "INT_MAX = 2147483647"
definition INT_MIN :: int where "INT_MIN = - 2147483648"

fun float_to_int :: "cfloat \<Rightarrow> int" where
  "float_to_int (Finite x) =
     max INT_MIN (min INT_MAX (if 0 \<le> x then \<lfloor>x\<rfloor> else \<lceil>x\<rceil>))"
| "float_to_int PInf = INT_MAX"
| "float_to_int NInf = INT_MIN"

text \<open>The conversion \<open>(float)thresholds[i]\<close>; every menu entry is below \<open>2^24\<close>, hence exact.\<close>

definition int_to_float :: "int \<Rightarrow> cfloat" where
  "int_to_float i = Finite (of_int i)"

subsection \<open>Rounding a decimal numeral to a float\<close>

fun bitlen :: "nat \<Rightarrow> nat" where
  "bitlen n = (if n = 0 then 0 else Suc (bitlen (n div 2)))"

declare bitlen.simps [simp del]

text \<open>\<open>ilog2 num den\<close> is the \<open>e\<close> with \<open>2^e \<le> num / den < 2^(e+1)\<close>, for positive arguments.\<close>

definition ilog2 :: "nat \<Rightarrow> nat \<Rightarrow> int" where
  "ilog2 num den =
     (let e0 = int (bitlen num) - int (bitlen den);
          ge = (if 0 \<le> e0 then den * 2 ^ nat e0 \<le> num else den \<le> num * 2 ^ nat (- e0))
      in if ge then e0 else e0 - 1)"

text \<open>Quotient of two naturals rounded to the nearest integer, ties to even.\<close>

definition round_div :: "nat \<Rightarrow> nat \<Rightarrow> nat" where
  "round_div n d =
     (let q = n div d; r = n mod d
      in if 2 * r < d then q
         else if d < 2 * r then q + 1
         else if even q then q else q + 1)"

definition pow2 :: "int \<Rightarrow> rat" where
  "pow2 k = (if 0 \<le> k then 2 ^ nat k else 1 / 2 ^ nat (- k))"

text \<open>
  The float nearest to \<open>\<plusminus> num / den\<close> (binary32: 24 significant bits, least normal exponent
  \<open>-126\<close>, overflow to infinity from \<open>2^128\<close>).
\<close>

definition round_float32 :: "bool \<Rightarrow> nat \<Rightarrow> nat \<Rightarrow> cfloat" where
  "round_float32 neg num den =
     (if num = 0 then Finite 0
      else
        let e = max (ilog2 num den) (- 126);
            sh = e - 23;
            m = (if 0 \<le> sh then round_div num (den * 2 ^ nat sh)
                 else round_div (num * 2 ^ nat (- sh)) den);
            v = of_nat m * pow2 sh
        in if pow2 128 \<le> v then (if neg then NInf else PInf)
           else Finite (if neg then - v else v))"

subsection \<open>Formatted output: the conversions \<open>sprintf\<close> is called with\<close>

definition digit_char :: "nat \<Rightarrow> char" where
  "digit_char d = ''0123456789'' ! d"

fun dec_digits :: "nat \<Rightarrow> string" where
  "dec_digits n =
     (if n < 10 then [digit_char n] else dec_digits (n div 10) @ [digit_char (n mod 10)])"

declare dec_digits.simps [simp del]

text \<open>\<open>%d\<close>\<close>

definition fmt_d :: "int \<Rightarrow> string" where
  "fmt_d i = (if i < 0 then CHR ''-'' # dec_digits (nat (- i)) else dec_digits (nat i))"

text \<open>\<open>%03d\<close>: at least three characters, zeros between the sign and the digits.\<close>

definition fmt_03d :: "int \<Rightarrow> string" where
  "fmt_03d i =
     (let sg = (if i < 0 then ''-'' else '''');
          ds = dec_digits (nat \<bar>i\<bar>)
      in sg @ replicate (3 - length sg - length ds) (CHR ''0'') @ ds)"

text \<open>\<open>%-7d\<close>: at least seven characters, left-justified, blanks on the right.\<close>

definition fmt_left7_d :: "int \<Rightarrow> string" where
  "fmt_left7_d i = fmt_d i @ replicate (7 - length (fmt_d i)) (CHR '' '')"

definition round_half_even :: "rat \<Rightarrow> int" where
  "round_half_even y =
     (let f = \<lfloor>y\<rfloor>; r = y - of_int f
      in if r < 1 / 2 then f
         else if 1 / 2 < r then f + 1
         else if even f then f else f + 1)"

text \<open>\<open>%+.2f\<close>: always a sign, two decimals, the exact value rounded to nearest (ties to even).\<close>

fun fmt_plus_2f :: "cfloat \<Rightarrow> string" where
  "fmt_plus_2f (Finite x) =
     (let h = nat (round_half_even (\<bar>x\<bar> * 100))
      in (if x < 0 then ''-'' else ''+'') @ dec_digits (h div 100) @ ''.'' @
         [digit_char (h mod 100 div 10), digit_char (h mod 10)])"
| "fmt_plus_2f PInf = ''+inf''"
| "fmt_plus_2f NInf = ''-inf''"

text \<open>
  The three format strings of \<open>main\<close>. Each definition yields the text the call formats.
  The destinations \<open>threshStr\<close>, \<open>line2\<close> and \<open>priceStr\<close> are arrays of 17 bytes, and
  \<open>sprintf\<close> stores the text and a closing NUL: a text of up to 16 characters fits. The text
  for \<open>threshStr\<close> has 8 characters for every entry of the menu and the text for
  \<open>priceStr\<close> at most 14 for every \<open>int\<close> (lemmas \<open>sprintf_threshStr_fits\<close> and
  \<open>sprintf_priceStr_fits\<close>). The text for \<open>line2\<close> can be longer: \<open>store_line2\<close> below
  has a branch for it.
\<close>

definition sprintf_threshStr :: "int \<Rightarrow> string" where
  \<comment> \<open>\<open>sprintf(threshStr, "$%-7d", thresholds[adjustable_index])\<close>\<close>
  "sprintf_threshStr t = ''$'' @ fmt_left7_d t"

definition sprintf_line2 :: "int \<Rightarrow> int \<Rightarrow> cfloat \<Rightarrow> string" where
  \<comment> \<open>\<open>sprintf(line2, "$%d,%03d  %+.2f%%", thousands, remainder, change)\<close>\<close>
  "sprintf_line2 thousands remainder change =
     ''$'' @ fmt_d thousands @ '','' @ fmt_03d remainder @ ''  '' @ fmt_plus_2f change @ ''%''"

definition sprintf_priceStr :: "int \<Rightarrow> int \<Rightarrow> string" where
  \<comment> \<open>\<open>sprintf(priceStr, "$%d,%03d", thousands, remainder)\<close>\<close>
  "sprintf_priceStr thousands remainder = ''$'' @ fmt_d thousands @ '','' @ fmt_03d remainder"

subsection \<open>Formatted input: \<open>sscanf\<close> with \<open>%f\<close> conversions\<close>

definition isspace :: "char \<Rightarrow> bool" where
  "isspace c = (c = CHR '' '' \<or> c = CHR 0x09 \<or> c = CHR 0x0A \<or> c = CHR 0x0B \<or>
                c = CHR 0x0C \<or> c = CHR 0x0D)"

definition isdigit :: "char \<Rightarrow> bool" where
  "isdigit c = (c \<in> set ''0123456789'')"

definition digits_val :: "string \<Rightarrow> nat" where
  "digits_val ds = foldl (\<lambda>a c. 10 * a + (of_char c - 48)) 0 ds"

text \<open>An optional sign: whether it is a minus, and the rest of the input.\<close>

definition scan_sign :: "string \<Rightarrow> bool \<times> string" where
  "scan_sign s =
     (case s of
        [] \<Rightarrow> (False, s)
      | c # r \<Rightarrow> if c = CHR ''-'' then (True, r) else if c = CHR ''+'' then (False, r)
                 else (False, s))"

text \<open>
  An optional exponent part after the significand: \<open>None\<close> when an \<open>e\<close> is not followed by
  digits (the input item then is no floating constant and the conversion fails), otherwise the
  exponent and the rest of the input.
\<close>

definition scan_exponent :: "string \<Rightarrow> (int \<times> string) option" where
  "scan_exponent s =
     (case s of
        [] \<Rightarrow> Some (0, s)
      | c # r \<Rightarrow>
          if c = CHR ''e'' \<or> c = CHR ''E'' then
            (let (neg, r1) = scan_sign r;
                 ds = takeWhile isdigit r1
             in if ds = [] then None
                else Some (if neg then - int (digits_val ds) else int (digits_val ds),
                           dropWhile isdigit r1))
          else Some (0, s))"

text \<open>
  The conversion \<open>%f\<close>: skip white space, then read a decimal floating constant (sign, digits
  with an optional point, optional exponent) and round it to a float. The hexadecimal,
  \<open>inf\<close> and \<open>nan\<close> forms that C99 adds are not recognised.
\<close>

definition scan_float :: "string \<Rightarrow> (cfloat \<times> string) option" where
  "scan_float s =
     (let (neg, s2) = scan_sign (dropWhile isspace s);
          ip = takeWhile isdigit s2;
          s3 = dropWhile isdigit s2;
          has_point = (case s3 of [] \<Rightarrow> False | c # r \<Rightarrow> c = CHR ''.'');
          fp = (if has_point then takeWhile isdigit (tl s3) else []);
          s4 = (if has_point then dropWhile isdigit (tl s3) else s3)
      in if ip = [] \<and> fp = [] then None
         else
           (case scan_exponent s4 of
              None \<Rightarrow> None
            | Some (ex, rest) \<Rightarrow>
                (let m = digits_val (ip @ fp);
                     dexp = ex - int (length fp)
                 in Some (if 0 \<le> dexp then round_float32 neg (m * 10 ^ nat dexp) 1
                          else round_float32 neg m (10 ^ nat (- dexp)),
                          rest))))"

datatype directive = WhiteSpace | Ordinary char | Conv_f | Percent

text \<open>The directives of a format string, as far as \<open>main\<close> uses them.\<close>

fun parse_format :: "string \<Rightarrow> directive list" where
  "parse_format [] = []"
| "parse_format [c] = (if isspace c then [WhiteSpace] else [Ordinary c])"
| "parse_format (c # d # r) =
     (if isspace c then WhiteSpace # parse_format (d # r)
      else if c = CHR ''%'' \<and> d = CHR ''f'' then Conv_f # parse_format r
      else if c = CHR ''%'' \<and> d = CHR ''%'' then Percent # parse_format r
      else Ordinary c # parse_format (d # r))"

text \<open>
  Running the directives over the input: the values converted until the first directive that
  fails. \<open>sscanf\<close> returns their number (or \<open>EOF\<close> when there is none and the input ended),
  and has stored each of them through its pointer argument.
\<close>

fun sscanf_run :: "directive list \<Rightarrow> string \<Rightarrow> cfloat list" where
  "sscanf_run [] inp = []"
| "sscanf_run (WhiteSpace # ds) inp = sscanf_run ds (dropWhile isspace inp)"
| "sscanf_run (Ordinary c # ds) inp =
     (case inp of [] \<Rightarrow> [] | x # xs \<Rightarrow> if x = c then sscanf_run ds xs else [])"
| "sscanf_run (Conv_f # ds) inp =
     (case scan_float inp of None \<Rightarrow> [] | Some (v, rest) \<Rightarrow> v # sscanf_run ds rest)"
| "sscanf_run (Percent # ds) inp =
     (case dropWhile isspace inp of
        [] \<Rightarrow> []
      | x # xs \<Rightarrow> if x = CHR ''%'' then sscanf_run ds xs else [])"

definition sscanf :: "string \<Rightarrow> string \<Rightarrow> cfloat list" where
  "sscanf buf fmt = sscanf_run (parse_format fmt) buf"

text \<open>The string a \<open>char\<close> array holds: the bytes before the first NUL.\<close>

definition c_string :: "char list \<Rightarrow> string" where
  "c_string buf = takeWhile (\<lambda>c. c \<noteq> CHR 0x00) buf"

section \<open>The program state and its environment\<close>

text \<open>
  Every routine that \<open>main\<close> calls outside this file (display, LED, buzzer, button, UART,
  delay) is a call on the environment. The trace lists these calls in program order, each
  with its arguments and, for the two inputs, with the value it returned;
  \<open>GPIOD_DATA_AND m\<close> is the statement \<open>GPIOD->DATA &= m\<close>.
\<close>

datatype event =
    PushButton_Init | RGB_LED_Init | Buzzer_Init | LCD_Init | UART1_Init
  | LCD_Clear
  | LCD_Set_Cursor nat nat
  | LCD_Display_String string
  | DelayMs nat
  | PushButton_Pressed bool
  | UART1_Input_Character char
  | RGB_LED_Flash_Yellow
  | Buzzer_Toggle
  | Buzzer_Off
  | RGB_LED_Set_Normal cfloat
  | GPIOD_DATA_AND "32 word"

text \<open>
  The variables of \<open>main\<close> and the two globals it uses, then the environment: \<open>polls\<close> are
  the values the coming calls of \<open>PushButton_Pressed()\<close> will return, \<open>trace\<close> the calls
  made so far. \<open>uart_buffer\<close> is the whole array, so \<open>BUFFER_SIZE\<close> is its length.
\<close>

record state =
  uart_buffer :: "char list"
  index :: "8 word"
  price :: cfloat
  change :: cfloat
  line2 :: string
  adjustable_index :: int
  threshStr :: string
  elapsed :: "32 word"
  local_threshold :: cfloat
  alarmStopped :: int
  polls :: "bool list"
  trace :: "event list"

text \<open>
  What stops a run: a store outside \<open>uart_buffer\<close>; a \<open>sprintf\<close> that writes past the end
  of \<open>line2\<close> (the behaviour of the program is undefined from there on); or a loop that
  polls the button when the observed polls are used up (the loop is still running where the
  observation ends).
\<close>

datatype fault = OutOfBounds | Line2Overflow | PollsExhausted

definition BUFFER_SIZE :: "state \<Rightarrow> int" where
  "BUFFER_SIZE s = int (length (uart_buffer s))"

definition thresholds :: "int list" where
  "thresholds = [10000, 20000, 30000, 40000, 50000, 60000, 70000, 80000, 90000, 100000,
                 110000, 120000]"

definition total_thresholds :: int where
  "total_thresholds = int (length thresholds)"

definition call :: "event \<Rightarrow> state \<Rightarrow> state" where
  "call e s = s\<lparr>trace := trace s @ [e]\<rparr>"

definition calls :: "event list \<Rightarrow> state \<Rightarrow> state" where
  "calls es s = s\<lparr>trace := trace s @ es\<rparr>"

definition and_then :: "fault + state \<Rightarrow> (state \<Rightarrow> fault + state) \<Rightarrow> fault + state" where
  "and_then r f = (case r of Inl e \<Rightarrow> Inl e | Inr s \<Rightarrow> f s)"

section \<open>Threshold selection (lines 84 to 120)\<close>

text \<open>The body of \<open>if (PushButton_Pressed())\<close>, lines 98 to 106.\<close>

definition select_press :: "state \<Rightarrow> state" where
  "select_press s =
     (let s1 = s\<lparr>adjustable_index := (adjustable_index s + 1) smod total_thresholds\<rparr>;
          s2 = s1\<lparr>threshStr := sprintf_threshStr (thresholds ! nat (adjustable_index s1))\<rparr>;
          s3 = calls [LCD_Set_Cursor 0 1, LCD_Display_String (threshStr s2)] s2;
          s4 = s3\<lparr>elapsed := 0\<rparr>
      in call (DelayMs 300) s4)"

text \<open>Lines 108 and 109.\<close>

definition select_tick :: "state \<Rightarrow> state" where
  "select_tick s = (let s1 = call (DelayMs 100) s in s1\<lparr>elapsed := elapsed s1 + 100\<rparr>)"

text \<open>One pass through the body of the loop, the button having answered \<open>p\<close>.\<close>

definition select_body :: "bool \<Rightarrow> state \<Rightarrow> state" where
  "select_body p s =
     (let s1 = call (PushButton_Pressed p) s
      in select_tick (if p then select_press s1 else s1))"

function select_loop :: "state \<Rightarrow> fault + state" where
  "select_loop s =
     (if elapsed s < 4000 then
        (case polls s of
           [] \<Rightarrow> Inl PollsExhausted
         | p # ps \<Rightarrow> select_loop (select_body p (s\<lparr>polls := ps\<rparr>)))
      else Inr s)"
  by pat_completeness auto
termination
  by (relation "measure (\<lambda>s. length (polls s))")
     (auto simp: select_body_def select_tick_def select_press_def call_def calls_def Let_def)

declare select_loop.simps [simp del]

definition threshold_phase :: "state \<Rightarrow> fault + state" where
  "threshold_phase s =
     (let s1 = calls [LCD_Clear, LCD_Set_Cursor 0 0, LCD_Display_String ''Set min val:''] s;
          s2 = s1\<lparr>threshStr := sprintf_threshStr (thresholds ! nat (adjustable_index s1))\<rparr>;
          s3 = calls [LCD_Set_Cursor 0 1, LCD_Display_String (threshStr s2)] s2
      in and_then (select_loop s3)
           (\<lambda>s4. let s5 = s4\<lparr>local_threshold :=
                                 int_to_float (thresholds ! nat (adjustable_index s4))\<rparr>
                 in Inr (calls [LCD_Clear, LCD_Set_Cursor 0 0,
                                LCD_Display_String ''Threshold Saved'', DelayMs 3000,
                                LCD_Clear] s5)))"

section \<open>The main loop (lines 123 to 179)\<close>

text \<open>The calls of one pass through the alarm loop, lines 141 to 150.\<close>

definition alarm_body :: "int \<Rightarrow> int \<Rightarrow> event list" where
  "alarm_body thousands remainder =
     [LCD_Clear, LCD_Set_Cursor 0 0, LCD_Display_String (sprintf_priceStr thousands remainder),
      LCD_Set_Cursor 0 1, LCD_Display_String ''BUY NOW'', RGB_LED_Flash_Yellow, Buzzer_Toggle,
      DelayMs 150]"

text \<open>The alarm loop, lines 140 to 151; \<open>thousands\<close> and \<open>remainder\<close> are locals of the caller.\<close>

function alarm_loop :: "int \<Rightarrow> int \<Rightarrow> state \<Rightarrow> fault + state" where
  "alarm_loop thousands remainder s =
     (if float_less (price s) (local_threshold s) then
        (case polls s of
           [] \<Rightarrow> Inl PollsExhausted
         | p # ps \<Rightarrow>
             (let s1 = call (PushButton_Pressed p) (s\<lparr>polls := ps\<rparr>)
              in if \<not> p then
                   alarm_loop thousands remainder (calls (alarm_body thousands remainder) s1)
                 else Inr s1))
      else Inr s)"
  by pat_completeness auto
termination
  by (relation "measure (\<lambda>(t, r, s). length (polls s))")
     (auto simp: call_def calls_def)

declare alarm_loop.simps [simp del]

text \<open>
  Line 135, \<open>sprintf(line2, ...)\<close> with \<open>char line2[17]\<close>: the text and its closing NUL are
  stored when they fit the 17 bytes; a longer text is written past the end of the array.
\<close>

definition store_line2 :: "string \<Rightarrow> state \<Rightarrow> fault + state" where
  "store_line2 str s =
     (if length str + 1 \<le> 17 then Inr (s\<lparr>line2 := str\<rparr>) else Inl Line2Overflow)"

text \<open>Lines 131 to 166: a line that gave both numbers.\<close>

definition process_update :: "state \<Rightarrow> fault + state" where
  "process_update s =
     (let intPrice = float_to_int (price s);
          thousands = intPrice sdiv 1000;
          remainder = intPrice smod 1000
      in and_then (store_line2 (sprintf_line2 thousands remainder (change s)) s)
           (\<lambda>s1. and_then
              (if float_less (price s1) (local_threshold s1) then
                 and_then (alarm_loop thousands remainder s1)
                   (\<lambda>s2. Inr (call Buzzer_Off (s2\<lparr>alarmStopped := 1\<rparr>)))
               else Inr s1)
              (\<lambda>s3. let s4 = (if float_ge (price s3) (local_threshold s3)
                               then s3\<lparr>alarmStopped := 0\<rparr> else s3)
                    in Inr (calls [LCD_Clear, LCD_Set_Cursor 0 0,
                                   LCD_Display_String ''BTC Price:'',
                                   LCD_Set_Cursor 0 1, LCD_Display_String (line2 s4),
                                   RGB_LED_Set_Normal (change s4), Buzzer_Off] s4))))"

text \<open>Lines 169 to 173: a line that did not.\<close>

definition process_malformed :: "state \<Rightarrow> state" where
  "process_malformed s =
     calls [LCD_Clear, LCD_Set_Cursor 0 0, LCD_Display_String ''Loading...'',
            GPIOD_DATA_AND (NOT 0x03), Buzzer_Off] s"

text \<open>
  Line 129 with both branches: \<open>sscanf\<close> stores what it converted, also when it converted
  only the first number, and the branch is chosen by the count.
\<close>

definition process_line :: "state \<Rightarrow> fault + state" where
  "process_line s =
     (let vs = sscanf (c_string (uart_buffer s)) ''BTC Price: $%f, 24h Change: %f%%'';
          s1 = (case vs of
                  [] \<Rightarrow> s
                | [p] \<Rightarrow> s\<lparr>price := p\<rparr>
                | p # c # r \<Rightarrow> s\<lparr>price := p, change := c\<rparr>)
      in if length vs = 2 then process_update s1 else Inr (process_malformed s1))"

definition store_uart_buffer :: "nat \<Rightarrow> char \<Rightarrow> state \<Rightarrow> fault + state" where
  "store_uart_buffer i c s =
     (if i < length (uart_buffer s) then Inr (s\<lparr>uart_buffer := (uart_buffer s)[i := c]\<rparr>)
      else Inl OutOfBounds)"

text \<open>The condition of line 126; \<open>index\<close> is promoted to \<open>int\<close> for the comparison.\<close>

definition line_ends :: "char \<Rightarrow> state \<Rightarrow> bool" where
  "line_ends c s = (c = CHR 0x0A \<or> c = CHR 0x0D \<or> BUFFER_SIZE s - 1 \<le> uint (index s))"

text \<open>Lines 126 to 178, the byte \<open>c\<close> having been read.\<close>

definition main_step :: "char \<Rightarrow> state \<Rightarrow> fault + state" where
  "main_step c s =
     (if line_ends c s then
        and_then (store_uart_buffer (unat (index s)) (CHR 0x00) s)
          (\<lambda>s1. and_then (process_line s1) (\<lambda>s2. Inr (s2\<lparr>index := 0\<rparr>)))
      else
        and_then (store_uart_buffer (unat (index s)) c s)
          (\<lambda>s1. Inr (s1\<lparr>index := index s1 + 1\<rparr>)))"

text \<open>
  The loop of line 123 over the bytes the UART delivers; when they are used up the program
  waits in \<open>UART1_Input_Character()\<close>, in the state returned.
\<close>

fun main_loop :: "char list \<Rightarrow> state \<Rightarrow> fault + state" where
  "main_loop [] s = Inr s"
| "main_loop (c # cs) s =
     and_then (main_step c (call (UART1_Input_Character c) s)) (main_loop cs)"

text \<open>
  The state at the first statement of \<open>main\<close>: the array \<open>uart_buffer\<close> holds whatever the
  stack held, and the two globals what their definitions (outside this file) gave them.
\<close>

definition initial_state :: "char list \<Rightarrow> cfloat \<Rightarrow> int \<Rightarrow> bool list \<Rightarrow> state" where
  "initial_state buf thr al ps =
     \<lparr>uart_buffer = buf, index = 0, price = Finite 0, change = Finite 0, line2 = [],
      adjustable_index = 0, threshStr = [], elapsed = 0, local_threshold = thr,
      alarmStopped = al, polls = ps, trace = []\<rparr>"

definition main :: "char list \<Rightarrow> cfloat \<Rightarrow> int \<Rightarrow> bool list \<Rightarrow> char list \<Rightarrow> fault + state" where
  "main buf thr al ps cs =
     and_then
       (threshold_phase
          (calls [PushButton_Init, RGB_LED_Init, Buzzer_Init, LCD_Init, UART1_Init]
             (initial_state buf thr al ps)))
       (main_loop cs)"

section \<open>Predicates used in the statements\<close>

text \<open>What one pass through the body of the main loop leaves alone, apart from the buffer.\<close>

definition kept :: "state \<Rightarrow> state \<Rightarrow> bool" where
  "kept s s' = (uart_buffer s' = uart_buffer s \<and> index s' = index s \<and>
                adjustable_index s' = adjustable_index s \<and> threshStr s' = threshStr s \<and>
                elapsed s' = elapsed s \<and> local_threshold s' = local_threshold s)"

text \<open>The write cursor points into the array.\<close>

definition within_buffer :: "state \<Rightarrow> bool" where
  "within_buffer s = (unat (index s) < length (uart_buffer s))"

text \<open>The state with the flag \<open>alarmStopped\<close> blanked: two states agree on everything else
  exactly when their images agree.\<close>

definition forget_alarm :: "state \<Rightarrow> state" where
  "forget_alarm s = s\<lparr>alarmStopped := 0\<rparr>"

text \<open>
  The answers of the button during a selection with \<open>N\<close> presses: \<open>gs\<close> lists, for each press,
  the number of polls that answer no before it, so \<open>N\<close> is the length of \<open>gs\<close>.
\<close>

fun press_polls :: "nat list \<Rightarrow> bool list" where
  "press_polls [] = []"
| "press_polls (g # gs) = replicate g False @ True # press_polls gs"

text \<open>
  The presses come within the window: \<open>k\<close> polls answering no would end the loop now, and 39
  would end it after a press (the pass of a press leaves \<open>elapsed\<close> at 100); every press comes
  earlier.
\<close>

fun in_window :: "nat \<Rightarrow> nat list \<Rightarrow> bool" where
  "in_window k [] = True"
| "in_window k (g # gs) = (g < k \<and> in_window 39 gs)"

text \<open>
  A state for the examples: the 64-byte buffer holds the given line, padded with NULs, and
  nothing has been displayed yet.
\<close>

definition example_state :: "string \<Rightarrow> cfloat \<Rightarrow> int \<Rightarrow> bool list \<Rightarrow> state" where
  "example_state line thr al ps =
     initial_state (line @ replicate (64 - length line) (CHR 0x00)) thr al ps"

text \<open>
  The run used for the latch: a line with a price of 65000, and the state in which the program
  waits for the next byte after that line, under a threshold of 70000, when the button answers
  no, then yes.
\<close>

definition alarm_line :: string where
  "alarm_line = ''BTC Price: $65000.00, 24h Change: -1.25%'' @ [CHR 0x0A]"

definition after_acknowledgement :: state where
  "after_acknowledgement =
     projr (main_loop alarm_line (example_state [] (Finite 70000) 0 [False, True, False, True]))"

section \<open>Library facts\<close>

lemma smod_nonneg: "0 \<le> a \<Longrightarrow> 0 < b \<Longrightarrow> a smod b = a mod (b::int)"
  by (simp add: signed_modulo_int_def sgn_if)

lemma total_thresholds_12: "total_thresholds = 12"
  by (simp add: total_thresholds_def thresholds_def)

lemma elapsed_lt: "((e :: 32 word) < 4000) = (unat e < 4000)"
  by (simp add: word_less_nat_alt)

lemma elapsed_step: "unat (e :: 32 word) < 4000 \<Longrightarrow> unat (e + 100) = unat e + 100"
  by (simp add: unat_word_ariths)

lemma elapsed_end: "unat (e :: 32 word) = 4000 \<Longrightarrow> e = 4000"
proof -
  assume "unat e = 4000"
  then have "unat e = unat (4000 :: 32 word)" by simp
  then show ?thesis by (simp only: word_unat_eq_iff)
qed

lemma floor_rat_numeral:
  "\<lfloor>numeral a / numeral b :: rat\<rfloor> = numeral a div numeral b"
  by (metis floor_divide_of_int_eq of_int_numeral)

lemma floor_rat_minus_numeral:
  "\<lfloor>- (numeral a / numeral b) :: rat\<rfloor> = - numeral a div numeral b"
  by (metis divide_minus_left floor_divide_of_int_eq of_int_neg_numeral of_int_numeral)

lemma ceiling_rat_numeral:
  "\<lceil>numeral a / numeral b :: rat\<rceil> = - (- numeral a div numeral b)"
  using ceiling_divide_eq_div [of "numeral a" "numeral b", where ?'a = rat] by simp

lemma ceiling_rat_minus_numeral:
  "\<lceil>- (numeral a / numeral b) :: rat\<rceil> = - (numeral a div numeral b)"
  using ceiling_divide_eq_div [of "- numeral a" "numeral b", where ?'a = rat] by simp

lemmas rat_floor = floor_rat_numeral floor_rat_minus_numeral ceiling_rat_numeral
  ceiling_rat_minus_numeral

lemma replicate_small:
  "replicate 2 x = [x, x]" "replicate 3 x = [x, x, x]"
  by (simp_all add: numeral_2_eq_2 numeral_3_eq_3)

text \<open>The unfolding set for evaluating the input conversion on numerals.\<close>

lemmas scan_defs = sscanf_def isspace_def scan_float_def scan_sign_def scan_exponent_def
  isdigit_def digits_val_def round_float32_def ilog2_def bitlen.simps round_div_def pow2_def
  Let_def c_string_def


lemma sprintf_65000:
  "sprintf_line2 (float_to_int (Finite 65000) sdiv 1000)
     (float_to_int (Finite 65000) smod 1000) (Finite (- 5 / 4)) = ''$65,000  -1.25%''"
  "sprintf_priceStr (float_to_int (Finite 65000) sdiv 1000)
     (float_to_int (Finite 65000) smod 1000) = ''$65,000''"
proof -
  have i: "float_to_int (Finite 65000) = 65000"
    by (simp add: INT_MAX_def INT_MIN_def)
  have d: "(65000 :: int) sdiv 1000 = 65" "(65000 :: int) smod 1000 = 0"
    by (simp_all add: signed_divide_int_def signed_modulo_int_def)
  show "sprintf_line2 (float_to_int (Finite 65000) sdiv 1000)
     (float_to_int (Finite 65000) smod 1000) (Finite (- 5 / 4)) = ''$65,000  -1.25%''"
    unfolding i d
    by (simp add: sprintf_line2_def fmt_d_def fmt_03d_def dec_digits.simps digit_char_def
        round_half_even_def Let_def replicate_small)
  show "sprintf_priceStr (float_to_int (Finite 65000) sdiv 1000)
     (float_to_int (Finite 65000) smod 1000) = ''$65,000''"
    unfolding i d
    by (simp add: sprintf_priceStr_def fmt_d_def fmt_03d_def dec_digits.simps digit_char_def
        Let_def replicate_small)
qed

lemma fits_65000:
  "length (sprintf_line2 (float_to_int (Finite 65000) sdiv 1000)
     (float_to_int (Finite 65000) smod 1000) (Finite (- 5 / 4))) \<le> 16"
  unfolding sprintf_65000 by simp

lemma sscanf_garbage:
  "sscanf ''garbage'' ''BTC Price: $%f, 24h Change: %f%%'' = []"
  by (simp add: sscanf_def isspace_def)


section \<open>The texts for \<open>threshStr\<close> and \<open>priceStr\<close> fit their arrays\<close>

lemma sprintf_threshStr_lengths:
  "map (\<lambda>t. length (sprintf_threshStr t)) thresholds = [8, 8, 8, 8, 8, 8, 8, 8, 8, 8, 8, 8]"
  unfolding thresholds_def list.map
  by (simp add: sprintf_threshStr_def fmt_left7_d_def fmt_d_def dec_digits.simps digit_char_def)

lemma sprintf_threshStr_fits:
  assumes "t \<in> set thresholds"
  shows "length (sprintf_threshStr t) = 8"
proof -
  have "\<forall>x \<in> set (map (\<lambda>t. length (sprintf_threshStr t)) thresholds). x = 8"
    unfolding sprintf_threshStr_lengths by simp
  with assms show ?thesis by auto
qed

lemma dec_digits_length:
  "0 < k \<Longrightarrow> n < 10 ^ k \<Longrightarrow> length (dec_digits n) \<le> k"
proof (induction n arbitrary: k rule: dec_digits.induct)
  case (1 n)
  show ?case
  proof (cases "n < 10")
    case True
    with "1.prems"(1) show ?thesis by (subst dec_digits.simps) simp
  next
    case False
    from "1.prems" obtain j where k: "k = Suc j" by (cases k) simp_all
    from False "1.prems"(2) have "0 < j" unfolding k by (cases j) simp_all
    moreover from "1.prems"(2) have "n div 10 < 10 ^ j" unfolding k by simp
    ultimately have "length (dec_digits (n div 10)) \<le> j" using False by (intro "1.IH")
    with False show ?thesis unfolding k by (subst dec_digits.simps) simp
  qed
qed

lemma float_to_int_range: "INT_MIN \<le> float_to_int p \<and> float_to_int p \<le> INT_MAX"
  by (cases p) (simp_all add: INT_MIN_def INT_MAX_def)

lemma fmt_d_length:
  assumes "\<bar>i\<bar> < 10 ^ k" and "0 < k"
  shows "length (fmt_d i) \<le> Suc k"
proof -
  have "length (dec_digits (nat \<bar>i\<bar>)) \<le> k"
    using assms by (intro dec_digits_length) (simp_all add: nat_less_iff)
  then show ?thesis by (auto simp: fmt_d_def abs_if split: if_splits)
qed

lemma fmt_03d_length:
  assumes "\<bar>i\<bar> < 1000"
  shows "length (fmt_03d i) \<le> 4"
proof -
  have "length (dec_digits (nat \<bar>i\<bar>)) \<le> 3"
    using assms by (intro dec_digits_length) (simp_all add: nat_less_iff)
  then show ?thesis by (cases "i < 0") (simp_all add: fmt_03d_def Let_def)
qed

lemma sprintf_priceStr_fits:
  "length (sprintf_priceStr (float_to_int p sdiv 1000) (float_to_int p smod 1000)) \<le> 14"
proof -
  let ?i = "float_to_int p"
  from float_to_int_range [of p] have r: "\<bar>?i\<bar> \<le> 2147483648"
    by (simp add: INT_MIN_def INT_MAX_def abs_le_iff)
  have "\<bar>?i sdiv 1000\<bar> = \<bar>?i\<bar> div 1000"
    by (simp add: signed_divide_int_def abs_mult sgn_if)
  with r have "\<bar>?i sdiv 1000\<bar> < 10 ^ 7" by simp
  then have a: "length (fmt_d (?i sdiv 1000)) \<le> 8"
    using fmt_d_length [of "?i sdiv 1000" 7] by simp
  have "\<bar>?i smod 1000\<bar> = \<bar>?i\<bar> mod 1000"
    by (simp add: signed_modulo_int_def abs_mult sgn_if)
  then have "\<bar>?i smod 1000\<bar> < 1000" by simp
  then have b: "length (fmt_03d (?i smod 1000)) \<le> 4" by (rule fmt_03d_length)
  from a b show ?thesis by (simp add: sprintf_priceStr_def)
qed

section \<open>The selection loop without a press\<close>

text \<open>
  With \<open>n\<close> ticks of 100 ms missing to 4000 and \<open>n\<close> polls that answer no, the loop ends
  after exactly these polls; with fewer polls it is still waiting.
\<close>

lemma select_loop_quiet:
  "unat (elapsed s) + 100 * n = 4000 \<Longrightarrow> polls s = replicate n False @ rest \<Longrightarrow>
   select_loop s =
     Inr (s\<lparr>elapsed := 4000, polls := rest,
            trace := trace s @ concat (replicate n [PushButton_Pressed False, DelayMs 100])\<rparr>)"
proof (induction n arbitrary: s)
  case 0
  then have "elapsed s = 4000" by (simp add: elapsed_end)
  with 0 show ?case by (subst select_loop.simps) simp
next
  case (Suc n)
  let ?s1 = "select_body False (s\<lparr>polls := replicate n False @ rest\<rparr>)"
  have lt: "unat (elapsed s) < 4000" using Suc.prems(1) by simp
  have e1: "unat (elapsed ?s1) + 100 * n = 4000"
    using Suc.prems(1) elapsed_step [OF lt]
    by (simp add: select_body_def select_tick_def call_def Let_def)
  have p1: "polls ?s1 = replicate n False @ rest"
    by (simp add: select_body_def select_tick_def call_def Let_def)
  have "select_loop s = select_loop ?s1"
    using lt Suc.prems(2) by (subst select_loop.simps) (simp add: elapsed_lt)
  also have "\<dots> = Inr (?s1\<lparr>elapsed := 4000, polls := rest,
            trace := trace ?s1 @ concat (replicate n [PushButton_Pressed False, DelayMs 100])\<rparr>)"
    using e1 p1 by (rule Suc.IH)
  finally show ?case
    by (simp add: select_body_def select_tick_def call_def Let_def)
qed

lemma select_loop_waiting:
  "unat (elapsed s) + 100 * n < 4000 \<Longrightarrow> polls s = replicate n False \<Longrightarrow>
   select_loop s = Inl PollsExhausted"
proof (induction n arbitrary: s)
  case 0
  then show ?case by (subst select_loop.simps) (simp add: elapsed_lt)
next
  case (Suc n)
  let ?s1 = "select_body False (s\<lparr>polls := replicate n False\<rparr>)"
  have lt: "unat (elapsed s) < 4000" using Suc.prems(1) by simp
  have e1: "unat (elapsed ?s1) + 100 * n < 4000"
    using Suc.prems(1) elapsed_step [OF lt]
    by (simp add: select_body_def select_tick_def call_def Let_def)
  have p1: "polls ?s1 = replicate n False"
    by (simp add: select_body_def select_tick_def call_def Let_def)
  have "select_loop s = select_loop ?s1"
    using lt Suc.prems(2) by (subst select_loop.simps) (simp add: elapsed_lt)
  also have "\<dots> = Inl PollsExhausted"
    using e1 p1 by (rule Suc.IH)
  finally show ?case .
qed

section \<open>The alarm loop and the handling of one line\<close>

lemma float_ge_iff: "float_ge a b = (\<not> float_less a b)"
  by (cases a; cases b) auto

lemma polls_cases:
  "(\<exists>n. ps = replicate n False) \<or> (\<exists>n rest. ps = replicate n False @ True # rest)"
proof (induction ps)
  case Nil
  then show ?case by simp
next
  case (Cons p ps)
  show ?case
  proof (cases p)
    case True
    then have "p # ps = replicate 0 False @ True # ps" by simp
    then show ?thesis by blast
  next
    case False
    from Cons.IH show ?thesis
    proof
      assume "\<exists>n. ps = replicate n False"
      then obtain n where "ps = replicate n False" ..
      with False have "p # ps = replicate (Suc n) False" by simp
      then show ?thesis by blast
    next
      assume "\<exists>n rest. ps = replicate n False @ True # rest"
      then obtain n rest where "ps = replicate n False @ True # rest" by blast
      with False have "p # ps = replicate (Suc n) False @ True # rest" by simp
      then show ?thesis by blast
    qed
  qed
qed

lemma alarm_loop_skip:
  "\<not> float_less (price s) (local_threshold s) \<Longrightarrow> alarm_loop t r s = Inr s"
  by (subst alarm_loop.simps) simp

lemma alarm_loop_acknowledged:
  "float_less (price s) (local_threshold s) \<Longrightarrow> polls s = replicate n False @ True # rest \<Longrightarrow>
   alarm_loop t r s =
     Inr (s\<lparr>polls := rest,
            trace := trace s @ concat (replicate n (PushButton_Pressed False # alarm_body t r)) @
                     [PushButton_Pressed True]\<rparr>)"
proof (induction n arbitrary: s)
  case 0
  then show ?case by (subst alarm_loop.simps) (simp add: call_def)
next
  case (Suc n)
  let ?s1 = "calls (alarm_body t r)
               (call (PushButton_Pressed False) (s\<lparr>polls := replicate n False @ True # rest\<rparr>))"
  have "alarm_loop t r s = alarm_loop t r ?s1"
    using Suc.prems by (subst alarm_loop.simps) (simp add: Let_def)
  also have "\<dots> = Inr (?s1\<lparr>polls := rest,
            trace := trace ?s1 @ concat (replicate n (PushButton_Pressed False # alarm_body t r)) @
                     [PushButton_Pressed True]\<rparr>)"
    using Suc.prems(1) by (intro Suc.IH) (simp_all add: call_def calls_def)
  finally show ?case by (simp add: call_def calls_def)
qed

lemma alarm_loop_unacknowledged:
  "float_less (price s) (local_threshold s) \<Longrightarrow> polls s = replicate n False \<Longrightarrow>
   alarm_loop t r s = Inl PollsExhausted"
proof (induction n arbitrary: s)
  case 0
  then show ?case by (subst alarm_loop.simps) simp
next
  case (Suc n)
  let ?s1 = "calls (alarm_body t r)
               (call (PushButton_Pressed False) (s\<lparr>polls := replicate n False\<rparr>))"
  have "alarm_loop t r s = alarm_loop t r ?s1"
    using Suc.prems by (subst alarm_loop.simps) (simp add: Let_def)
  also have "\<dots> = Inl PollsExhausted"
    using Suc.prems(1) by (intro Suc.IH) (simp_all add: call_def calls_def)
  finally show ?case .
qed

lemma alarm_loop_shape:
  assumes "alarm_loop t r s = Inr s'"
  shows "\<exists>ps es. s' = s\<lparr>polls := ps, trace := trace s @ es\<rparr>"
proof (cases "float_less (price s) (local_threshold s)")
  case False
  with assms have "s' = s" by (simp add: alarm_loop_skip)
  then have "s' = s\<lparr>polls := polls s, trace := trace s @ []\<rparr>" by simp
  then show ?thesis by blast
next
  case True
  from polls_cases [of "polls s"] show ?thesis
  proof
    assume "\<exists>n. polls s = replicate n False"
    then obtain n where "polls s = replicate n False" ..
    with True assms show ?thesis by (simp add: alarm_loop_unacknowledged)
  next
    assume "\<exists>n rest. polls s = replicate n False @ True # rest"
    then obtain n rest where "polls s = replicate n False @ True # rest" by blast
    from alarm_loop_acknowledged [OF True this, of t r] assms show ?thesis by auto
  qed
qed

text \<open>The two outcomes of line 135.\<close>

lemma process_update_overflow:
  assumes "\<not> length (sprintf_line2 (float_to_int (price s) sdiv 1000)
                     (float_to_int (price s) smod 1000) (change s)) \<le> 16"
  shows "process_update s = Inl Line2Overflow"
  using assms by (simp add: process_update_def store_line2_def and_then_def Let_def)

lemma process_update_stored:
  assumes "length (sprintf_line2 (float_to_int (price s) sdiv 1000)
                   (float_to_int (price s) smod 1000) (change s)) \<le> 16"
  shows "process_update s =
     (let intPrice = float_to_int (price s);
          thousands = intPrice sdiv 1000;
          remainder = intPrice smod 1000;
          s1 = s\<lparr>line2 := sprintf_line2 thousands remainder (change s)\<rparr>
      in and_then
           (if float_less (price s1) (local_threshold s1) then
              and_then (alarm_loop thousands remainder s1)
                (\<lambda>s2. Inr (call Buzzer_Off (s2\<lparr>alarmStopped := 1\<rparr>)))
            else Inr s1)
           (\<lambda>s3. let s4 = (if float_ge (price s3) (local_threshold s3)
                            then s3\<lparr>alarmStopped := 0\<rparr> else s3)
                 in Inr (calls [LCD_Clear, LCD_Set_Cursor 0 0, LCD_Display_String ''BTC Price:'',
                                LCD_Set_Cursor 0 1, LCD_Display_String (line2 s4),
                                RGB_LED_Set_Normal (change s4), Buzzer_Off] s4)))"
  using assms by (simp add: process_update_def store_line2_def and_then_def Let_def)

lemma process_update_Inr_fits:
  assumes "process_update s = Inr s'"
  shows "length (sprintf_line2 (float_to_int (price s) sdiv 1000)
                 (float_to_int (price s) smod 1000) (change s)) \<le> 16"
proof (rule ccontr)
  assume "\<not> ?thesis"
  from process_update_overflow [OF this] assms show False by simp
qed

lemma process_update_kept:
  assumes "process_update s = Inr s'"
  shows "kept s s'"
proof -
  let ?t = "float_to_int (price s) sdiv 1000" and ?r = "float_to_int (price s) smod 1000"
  let ?s1 = "s\<lparr>line2 := sprintf_line2 ?t ?r (change s)\<rparr>"
  note pu = process_update_stored [OF process_update_Inr_fits [OF assms]]
  show ?thesis
  proof (cases "float_less (price s) (local_threshold s)")
    case False
    with assms show ?thesis
      by (auto simp: pu and_then_def Let_def calls_def float_ge_iff kept_def)
  next
    case True
    with assms obtain s2 where a: "alarm_loop ?t ?r ?s1 = Inr s2"
      by (auto simp: pu and_then_def Let_def split: sum.splits)
    from alarm_loop_shape [OF a] obtain ps es
      where s2: "s2 = ?s1\<lparr>polls := ps, trace := trace ?s1 @ es\<rparr>" by blast
    from assms True a have "s' = calls [LCD_Clear, LCD_Set_Cursor 0 0, LCD_Display_String ''BTC Price:'',
                                LCD_Set_Cursor 0 1, LCD_Display_String (line2 s2),
                                RGB_LED_Set_Normal (change s2), Buzzer_Off]
                               (call Buzzer_Off (s2\<lparr>alarmStopped := 1\<rparr>))"
      by (simp add: pu and_then_def Let_def float_ge_iff s2 call_def calls_def)
    then show ?thesis unfolding s2 by (simp add: call_def calls_def kept_def)
  qed
qed

lemma process_line_kept:
  assumes "process_line s = Inr s'"
  shows "kept s s'"
proof -
  let ?vs = "sscanf (c_string (uart_buffer s)) ''BTC Price: $%f, 24h Change: %f%%''"
  let ?s1 = "case ?vs of [] \<Rightarrow> s | [p] \<Rightarrow> s\<lparr>price := p\<rparr> | p # c # r \<Rightarrow> s\<lparr>price := p, change := c\<rparr>"
  have s1: "kept s ?s1"
    by (simp add: kept_def split: list.splits)
  show ?thesis
  proof (cases "length ?vs = 2")
    case True
    with assms have "process_update ?s1 = Inr s'" by (simp add: process_line_def Let_def)
    from process_update_kept [OF this] s1 show ?thesis by (simp add: kept_def)
  next
    case False
    with assms have "s' = process_malformed ?s1" by (simp add: process_line_def Let_def)
    with s1 show ?thesis by (simp add: process_malformed_def calls_def kept_def)
  qed
qed

lemma alarm_loop_fault:
  assumes "alarm_loop t r s = Inl f"
  shows "f = PollsExhausted"
proof (cases "float_less (price s) (local_threshold s)")
  case False
  with assms show ?thesis by (simp add: alarm_loop_skip)
next
  case True
  from polls_cases [of "polls s"] show ?thesis
  proof
    assume "\<exists>n. polls s = replicate n False"
    then obtain n where "polls s = replicate n False" ..
    with True assms show ?thesis by (simp add: alarm_loop_unacknowledged)
  next
    assume "\<exists>n rest. polls s = replicate n False @ True # rest"
    then obtain n rest where "polls s = replicate n False @ True # rest" by blast
    from alarm_loop_acknowledged [OF True this, of t r] assms show ?thesis by simp
  qed
qed

lemma process_update_fault:
  "process_update s = Inl f \<Longrightarrow> f = PollsExhausted \<or> f = Line2Overflow"
  by (auto simp: process_update_def store_line2_def and_then_def Let_def
      split: if_splits sum.splits dest: alarm_loop_fault)

lemma process_line_fault:
  "process_line s = Inl f \<Longrightarrow> f = PollsExhausted \<or> f = Line2Overflow"
  by (auto simp: process_line_def Let_def split: if_splits dest: process_update_fault)

section \<open>One pass through the main loop\<close>

lemma store_uart_buffer_Inr:
  "i < length (uart_buffer s) \<Longrightarrow>
   store_uart_buffer i c s = Inr (s\<lparr>uart_buffer := (uart_buffer s)[i := c]\<rparr>)"
  by (simp add: store_uart_buffer_def)

lemma not_line_ends_room:
  "\<not> line_ends c s \<Longrightarrow> Suc (unat (index s)) < length (uart_buffer s)"
proof -
  assume "\<not> line_ends c s"
  then have "uint (index s) < int (length (uart_buffer s)) - 1"
    by (simp add: line_ends_def BUFFER_SIZE_def)
  moreover have "uint (index s) = int (unat (index s))"
    by (rule uint_nat)
  ultimately show ?thesis by linarith
qed

lemma unat_index_Suc: "unat (i + 1 :: 8 word) \<le> Suc (unat i)"
  by (simp add: unat_word_ariths) 

lemma main_step_flush:
  "line_ends c s \<Longrightarrow> within_buffer s \<Longrightarrow>
   main_step c s =
     and_then (process_line (s\<lparr>uart_buffer := (uart_buffer s)[unat (index s) := CHR 0x00]\<rparr>))
       (\<lambda>s2. Inr (s2\<lparr>index := 0\<rparr>))"
  by (simp add: main_step_def within_buffer_def store_uart_buffer_Inr and_then_def)

lemma main_step_append:
  "\<not> line_ends c s \<Longrightarrow>
   main_step c s =
     Inr (s\<lparr>uart_buffer := (uart_buffer s)[unat (index s) := c], index := index s + 1\<rparr>)"
  using not_line_ends_room [of c s]
  by (simp add: main_step_def store_uart_buffer_Inr and_then_def)

lemma main_step_within:
  assumes "within_buffer s"
  shows "main_step c s \<noteq> Inl OutOfBounds"
    and "main_step c s = Inr s' \<Longrightarrow>
         within_buffer s' \<and> length (uart_buffer s') = length (uart_buffer s) \<and>
         local_threshold s' = local_threshold s \<and> adjustable_index s' = adjustable_index s"
proof -
  let ?s1 = "s\<lparr>uart_buffer := (uart_buffer s)[unat (index s) := CHR 0x00]\<rparr>"
  show "main_step c s \<noteq> Inl OutOfBounds"
  proof (cases "line_ends c s")
    case True
    show ?thesis
    proof (cases "process_line ?s1")
      case (Inl f)
      from process_line_fault [OF Inl] Inl True assms show ?thesis
        by (auto simp: main_step_flush and_then_def)
    next
      case (Inr s2)
      with True assms show ?thesis by (simp add: main_step_flush and_then_def)
    qed
  next
    case False
    then show ?thesis by (simp add: main_step_append)
  qed
  show "within_buffer s' \<and> length (uart_buffer s') = length (uart_buffer s) \<and>
         local_threshold s' = local_threshold s \<and> adjustable_index s' = adjustable_index s"
    if r: "main_step c s = Inr s'"
  proof (cases "line_ends c s")
    case True
    with r assms obtain s2 where p: "process_line ?s1 = Inr s2" and s': "s' = s2\<lparr>index := 0\<rparr>"
      by (auto simp: main_step_flush and_then_def split: sum.splits)
    from process_line_kept [OF p] s' assms show ?thesis
      by (auto simp: kept_def within_buffer_def)
  next
    case False
    with r have s': "s' = s\<lparr>uart_buffer := (uart_buffer s)[unat (index s) := c], index := index s + 1\<rparr>"
      by (simp add: main_step_append)
    from not_line_ends_room [OF False] unat_index_Suc [of "index s"] show ?thesis
      unfolding s' by (simp add: within_buffer_def)
  qed
qed

lemma main_step_threshold:
  assumes "main_step c s = Inr s'"
  shows "local_threshold s' = local_threshold s \<and> adjustable_index s' = adjustable_index s"
proof (cases "line_ends c s")
  case True
  with assms obtain s1 s2 where
    a: "store_uart_buffer (unat (index s)) (CHR 0x00) s = Inr s1" and
    b: "process_line s1 = Inr s2" and c: "s' = s2\<lparr>index := 0\<rparr>"
    by (auto simp: main_step_def and_then_def split: sum.splits)
  from a have "local_threshold s1 = local_threshold s \<and> adjustable_index s1 = adjustable_index s"
    by (auto simp: store_uart_buffer_def split: if_splits)
  with process_line_kept [OF b] c show ?thesis by (simp add: kept_def)
next
  case False
  with assms show ?thesis by (auto simp: main_step_append)
qed

lemma main_loop_threshold:
  "main_loop cs s = Inr s' \<Longrightarrow>
   local_threshold s' = local_threshold s \<and> adjustable_index s' = adjustable_index s"
proof (induction cs arbitrary: s)
  case Nil
  then show ?case by simp
next
  case (Cons c cs)
  then obtain s1 where a: "main_step c (call (UART1_Input_Character c) s) = Inr s1"
    and b: "main_loop cs s1 = Inr s'"
    by (auto simp: and_then_def split: sum.splits)
  from main_step_threshold [OF a] Cons.IH [OF b] show ?case by (simp add: call_def)
qed

lemma main_loop_within:
  "within_buffer s \<Longrightarrow>
   main_loop cs s \<noteq> Inl OutOfBounds \<and>
   (\<forall>s'. main_loop cs s = Inr s' \<longrightarrow>
      within_buffer s' \<and> length (uart_buffer s') = length (uart_buffer s))"
proof (induction cs arbitrary: s)
  case Nil
  then show ?case by simp
next
  case (Cons c cs)
  let ?s0 = "call (UART1_Input_Character c) s"
  have w: "within_buffer ?s0" using Cons.prems by (simp add: within_buffer_def call_def)
  have l: "length (uart_buffer ?s0) = length (uart_buffer s)" by (simp add: call_def)
  show ?case
  proof (cases "main_step c ?s0")
    case (Inl f)
    with main_step_within(1) [OF w, of c] show ?thesis by (simp add: and_then_def)
  next
    case (Inr s1)
    from main_step_within(2) [OF w Inr] Cons.IH [of s1] Inr l show ?thesis
      by (simp add: and_then_def)
  qed
qed

lemma unat_index_add:
  "unat (i :: 8 word) + n < 256 \<Longrightarrow> unat (i + word_of_nat n) = unat i + n"
  by (simp add: unat_word_ariths unat_of_nat)

lemma main_loop_fill:
  "unat (index s) + length cs < length (uart_buffer s) \<Longrightarrow> length (uart_buffer s) \<le> 256 \<Longrightarrow>
   CHR 0x0A \<notin> set cs \<Longrightarrow> CHR 0x0D \<notin> set cs \<Longrightarrow>
   main_loop cs s =
     Inr (s\<lparr>uart_buffer := take (unat (index s)) (uart_buffer s) @ cs @
                             drop (unat (index s) + length cs) (uart_buffer s),
            index := index s + word_of_nat (length cs),
            trace := trace s @ map UART1_Input_Character cs\<rparr>)"
proof (induction cs arbitrary: s)
  case Nil
  then show ?case by simp
next
  case (Cons c cs)
  let ?k = "unat (index s)"
  let ?s0 = "call (UART1_Input_Character c) s"
  let ?s1 = "?s0\<lparr>uart_buffer := (uart_buffer ?s0)[unat (index ?s0) := c], index := index ?s0 + 1\<rparr>"
  have k: "Suc ?k < length (uart_buffer s)" using Cons.prems(1) by simp
  have u: "uint (index s) = int ?k" by (rule uint_nat)
  have "\<not> int (length (uart_buffer s)) - 1 \<le> uint (index s)"
    using k u by linarith
  then have n: "\<not> line_ends c ?s0"
    using Cons.prems(3,4) by (auto simp: line_ends_def BUFFER_SIZE_def call_def)
  have i1: "unat (index s + 1) = Suc ?k"
    using unat_index_add [of "index s" 1] k Cons.prems(2) by simp
  have "main_loop (c # cs) s = main_loop cs ?s1"
    using n by (simp add: main_step_append and_then_def)
  also have "\<dots> = Inr (?s1\<lparr>uart_buffer := take (unat (index ?s1)) (uart_buffer ?s1) @ cs @
                             drop (unat (index ?s1) + length cs) (uart_buffer ?s1),
            index := index ?s1 + word_of_nat (length cs),
            trace := trace ?s1 @ map UART1_Input_Character cs\<rparr>)"
    using Cons.prems i1 by (intro Cons.IH) (simp_all add: call_def)
  finally show ?case
    using k i1 by (simp add: call_def take_Suc_conv_app_nth add.assoc)
qed

section \<open>A whole line\<close>

lemma main_loop_append:
  "main_loop (xs @ ys) s = and_then (main_loop xs s) (main_loop ys)"
proof (induction xs arbitrary: s)
  case Nil
  then show ?case by (simp add: and_then_def)
next
  case (Cons c xs)
  show ?case
    by (cases "main_step c (call (UART1_Input_Character c) s)") (simp_all add: and_then_def Cons.IH)
qed

lemma main_loop_single:
  "main_loop [c] s = main_step c (call (UART1_Input_Character c) s)"
  by (cases "main_step c (call (UART1_Input_Character c) s)") (simp_all add: and_then_def)

lemma c_string_line: "c_string (cs @ CHR 0x00 # r) = c_string cs"
  by (induction cs) (simp_all add: c_string_def)

lemma c_string_no_NUL: "CHR 0x00 \<notin> set cs \<Longrightarrow> c_string cs = cs"
  by (induction cs) (auto simp: c_string_def)

lemma main_loop_line:
  assumes i: "index s = 0" and n: "length cs < length (uart_buffer s)"
    and b: "length (uart_buffer s) \<le> 256"
    and lf: "CHR 0x0A \<notin> set cs" and cr: "CHR 0x0D \<notin> set cs"
  shows "main_loop (cs @ [CHR 0x0A]) s =
     and_then
       (process_line
          (s\<lparr>uart_buffer := cs @ CHR 0x00 # drop (Suc (length cs)) (uart_buffer s),
             index := word_of_nat (length cs),
             trace := trace s @ map UART1_Input_Character (cs @ [CHR 0x0A])\<rparr>))
       (\<lambda>s2. Inr (s2\<lparr>index := 0\<rparr>))"
proof -
  let ?s1 = "s\<lparr>uart_buffer := cs @ drop (length cs) (uart_buffer s),
                index := word_of_nat (length cs),
                trace := trace s @ map UART1_Input_Character cs\<rparr>"
  have f: "main_loop cs s = Inr ?s1"
    using main_loop_fill [of s cs] i n b lf cr by simp
  let ?s2 = "call (UART1_Input_Character (CHR 0x0A)) ?s1"
  have u: "unat (index ?s2) = length cs"
    using n b by (simp add: call_def unat_of_nat)
  have w: "within_buffer ?s2"
    using n u by (simp add: within_buffer_def call_def)
  have le: "line_ends (CHR 0x0A) ?s2" by (simp add: line_ends_def)
  have l: "(cs @ drop (length cs) (uart_buffer s))[length cs := CHR 0x00] =
        cs @ CHR 0x00 # drop (Suc (length cs)) (uart_buffer s)"
    using n by (simp add: list_update_append upd_conv_take_nth_drop drop_Suc [symmetric] Cons_nth_drop_Suc)
  have st: "?s2\<lparr>uart_buffer := (uart_buffer ?s2)[unat (index ?s2) := CHR 0x00]\<rparr> =
          s\<lparr>uart_buffer := cs @ CHR 0x00 # drop (Suc (length cs)) (uart_buffer s),
             index := word_of_nat (length cs),
             trace := trace s @ map UART1_Input_Character (cs @ [CHR 0x0A])\<rparr>"
    unfolding u using l by (simp add: call_def)
  have "main_loop (cs @ [CHR 0x0A]) s = main_loop [CHR 0x0A] ?s1"
    by (simp only: main_loop_append f and_then_def sum.case)
  also have "\<dots> = main_step (CHR 0x0A) ?s2"
    by (rule main_loop_single)
  also have "\<dots> =
     and_then
       (process_line
          (s\<lparr>uart_buffer := cs @ CHR 0x00 # drop (Suc (length cs)) (uart_buffer s),
             index := word_of_nat (length cs),
             trace := trace s @ map UART1_Input_Character (cs @ [CHR 0x0A])\<rparr>))
       (\<lambda>s2. Inr (s2\<lparr>index := 0\<rparr>))"
    using main_step_flush [OF le w] unfolding st .
  finally show ?thesis .
qed

section \<open>The flag \<open>alarmStopped\<close> has no influence\<close>

lemma forget_alarm_eq:
  "forget_alarm s1 = forget_alarm s2 \<Longrightarrow> s1 = s2\<lparr>alarmStopped := alarmStopped s1\<rparr>"
  by (cases s1; cases s2) (simp add: forget_alarm_def)

lemma alarm_loop_alarmStopped:
  "alarm_loop t r (s\<lparr>alarmStopped := a\<rparr>) =
   map_sum id (\<lambda>s'. s'\<lparr>alarmStopped := a\<rparr>) (alarm_loop t r s)"
proof (cases "float_less (price s) (local_threshold s)")
  case False
  then show ?thesis by (simp add: alarm_loop_skip)
next
  case True
  then have T: "float_less (price (s\<lparr>alarmStopped := a\<rparr>)) (local_threshold (s\<lparr>alarmStopped := a\<rparr>))"
    by simp
  from polls_cases [of "polls s"] show ?thesis
  proof
    assume "\<exists>n. polls s = replicate n False"
    then obtain n where p: "polls s = replicate n False" ..
    then have "polls (s\<lparr>alarmStopped := a\<rparr>) = replicate n False" by simp
    from alarm_loop_unacknowledged [OF T this] alarm_loop_unacknowledged [OF True p]
    show ?thesis by simp
  next
    assume "\<exists>n rest. polls s = replicate n False @ True # rest"
    then obtain n rest where p: "polls s = replicate n False @ True # rest" by blast
    then have "polls (s\<lparr>alarmStopped := a\<rparr>) = replicate n False @ True # rest" by simp
    from alarm_loop_acknowledged [OF T this] alarm_loop_acknowledged [OF True p]
    show ?thesis by simp
  qed
qed

lemma forget_alarm_fields:
  assumes "forget_alarm s' = forget_alarm s"
  shows "uart_buffer s' = uart_buffer s" "index s' = index s" "price s' = price s"
    "change s' = change s" "line2 s' = line2 s" "local_threshold s' = local_threshold s"
    "polls s' = polls s" "trace s' = trace s"
proof -
  from forget_alarm_eq [OF assms] have e: "s' = s\<lparr>alarmStopped := alarmStopped s'\<rparr>" .
  show "uart_buffer s' = uart_buffer s" by (subst e) simp
  show "index s' = index s" by (subst e) simp
  show "price s' = price s" by (subst e) simp
  show "change s' = change s" by (subst e) simp
  show "line2 s' = line2 s" by (subst e) simp
  show "local_threshold s' = local_threshold s" by (subst e) simp
  show "polls s' = polls s" by (subst e) simp
  show "trace s' = trace s" by (subst e) simp
qed

lemma forget_alarm_update [simp]: "forget_alarm (s\<lparr>alarmStopped := a\<rparr>) = forget_alarm s"
  by (simp add: forget_alarm_def)

lemma alarm_loop_forget:
  assumes "forget_alarm s' = forget_alarm s"
  shows "map_sum id forget_alarm (alarm_loop t r s') = map_sum id forget_alarm (alarm_loop t r s)"
proof -
  from forget_alarm_eq [OF assms] obtain a where "s' = s\<lparr>alarmStopped := a\<rparr>" by blast
  then show ?thesis
    by (cases "alarm_loop t r s") (simp_all add: alarm_loop_alarmStopped)
qed

lemma and_then_forget:
  assumes "map_sum id forget_alarm r' = map_sum id forget_alarm r"
    and "\<And>s s'. forget_alarm s' = forget_alarm s \<Longrightarrow>
           map_sum id forget_alarm (f s') = map_sum id forget_alarm (f s)"
  shows "map_sum id forget_alarm (and_then r' f) = map_sum id forget_alarm (and_then r f)"
proof (cases r)
  case (Inl x)
  with assms(1) have "r' = Inl x" by (cases r') simp_all
  with Inl show ?thesis by (simp add: and_then_def)
next
  case (Inr x)
  with assms(1) obtain x' where r': "r' = Inr x'" and "forget_alarm x' = forget_alarm x"
    by (cases r') simp_all
  from assms(2) [OF this(2)] Inr r' show ?thesis by (simp add: and_then_def)
qed

lemma process_update_forget:
  assumes e: "forget_alarm s' = forget_alarm s"
  shows "map_sum id forget_alarm (process_update s') = map_sum id forget_alarm (process_update s)"
proof -
  note f = forget_alarm_fields [OF e]
  let ?t = "float_to_int (price s) sdiv 1000" and ?r = "float_to_int (price s) smod 1000"
  let ?l = "sprintf_line2 ?t ?r (change s)"
  let ?k = "\<lambda>s2. Inr (call Buzzer_Off (s2\<lparr>alarmStopped := 1\<rparr>)) :: fault + state"
  let ?A = "\<lambda>s1. if float_less (price s) (local_threshold s)
                  then and_then (alarm_loop ?t ?r s1) ?k else Inr s1"
  let ?K = "\<lambda>s3. let s4 = (if float_ge (price s3) (local_threshold s3)
                            then s3\<lparr>alarmStopped := 0\<rparr> else s3)
                 in Inr (calls [LCD_Clear, LCD_Set_Cursor 0 0, LCD_Display_String ''BTC Price:'',
                                LCD_Set_Cursor 0 1, LCD_Display_String (line2 s4),
                                RGB_LED_Set_Normal (change s4), Buzzer_Off] s4) :: fault + state"
  have e1: "forget_alarm (s'\<lparr>line2 := ?l\<rparr>) = forget_alarm (s\<lparr>line2 := ?l\<rparr>)"
    using e by (cases s; cases s') (simp add: forget_alarm_def)
  have k: "map_sum id forget_alarm (?k x') = map_sum id forget_alarm (?k x)"
    if "forget_alarm x' = forget_alarm x" for x x'
    using that by (cases x; cases x') (simp add: forget_alarm_def call_def)
  have K: "map_sum id forget_alarm (?K x') = map_sum id forget_alarm (?K x)"
    if "forget_alarm x' = forget_alarm x" for x x'
    using that by (cases x; cases x') (simp add: forget_alarm_def calls_def Let_def)
  have A: "map_sum id forget_alarm (?A (s'\<lparr>line2 := ?l\<rparr>)) =
           map_sum id forget_alarm (?A (s\<lparr>line2 := ?l\<rparr>))"
  proof (cases "float_less (price s) (local_threshold s)")
    case True
    have "map_sum id forget_alarm (and_then (alarm_loop ?t ?r (s'\<lparr>line2 := ?l\<rparr>)) ?k) =
          map_sum id forget_alarm (and_then (alarm_loop ?t ?r (s\<lparr>line2 := ?l\<rparr>)) ?k)"
      by (rule and_then_forget [OF alarm_loop_forget [OF e1]]) (rule k)
    then show ?thesis by (simp only: True if_True)
  next
    case False
    show ?thesis by (simp only: False if_False map_sum.simps e1)
  qed
  show ?thesis
  proof (cases "length ?l \<le> 16")
    case True
    then have "length (sprintf_line2 (float_to_int (price s') sdiv 1000)
                 (float_to_int (price s') smod 1000) (change s')) \<le> 16"
      by (simp add: f)
    from process_update_stored [OF this]
    have p': "process_update s' = and_then (?A (s'\<lparr>line2 := ?l\<rparr>)) ?K"
      by (simp add: Let_def f)
    from process_update_stored [OF True]
    have p: "process_update s = and_then (?A (s\<lparr>line2 := ?l\<rparr>)) ?K"
      by (simp add: Let_def)
    have "map_sum id forget_alarm (and_then (?A (s'\<lparr>line2 := ?l\<rparr>)) ?K) =
          map_sum id forget_alarm (and_then (?A (s\<lparr>line2 := ?l\<rparr>)) ?K)"
      by (rule and_then_forget [OF A]) (rule K)
    then show ?thesis by (simp only: p p')
  next
    case False
    then have "\<not> length (sprintf_line2 (float_to_int (price s') sdiv 1000)
                   (float_to_int (price s') smod 1000) (change s')) \<le> 16"
      by (simp add: f)
    from process_update_overflow [OF this] process_update_overflow [OF False]
    show ?thesis by simp
  qed
qed

lemma process_line_forget:
  assumes e: "forget_alarm s' = forget_alarm s"
  shows "map_sum id forget_alarm (process_line s') = map_sum id forget_alarm (process_line s)"
proof -
  note f = forget_alarm_fields [OF e]
  let ?vs = "sscanf (c_string (uart_buffer s)) ''BTC Price: $%f, 24h Change: %f%%''"
  let ?S = "\<lambda>s. case ?vs of [] \<Rightarrow> s | [p] \<Rightarrow> s\<lparr>price := p\<rparr>
                 | p # c # r \<Rightarrow> s\<lparr>price := p, change := c\<rparr>"
  have e1: "forget_alarm (?S s') = forget_alarm (?S s)"
    using e by (cases s; cases s') (simp add: forget_alarm_def split: list.splits)
  have m: "forget_alarm (process_malformed (?S s')) = forget_alarm (process_malformed (?S s))"
    using e1 by (cases "?S s"; cases "?S s'") (simp add: forget_alarm_def process_malformed_def calls_def)
  show ?thesis
  proof (cases "length ?vs = 2")
    case True
    have p': "process_line s' = process_update (?S s')"
      using True by (simp add: process_line_def Let_def f)
    have p: "process_line s = process_update (?S s)"
      using True by (simp add: process_line_def Let_def)
    show ?thesis unfolding p p' by (rule process_update_forget [OF e1])
  next
    case False
    have p': "process_line s' = Inr (process_malformed (?S s'))"
      using False by (simp add: process_line_def Let_def f)
    have p: "process_line s = Inr (process_malformed (?S s))"
      using False by (simp add: process_line_def Let_def)
    show ?thesis unfolding p p' by (simp add: m)
  qed
qed

lemma main_step_forget:
  assumes e: "forget_alarm s' = forget_alarm s"
  shows "map_sum id forget_alarm (main_step c s') = map_sum id forget_alarm (main_step c s)"
proof -
  note f = forget_alarm_fields [OF e]
  have st: "map_sum id forget_alarm (store_uart_buffer i x s') =
            map_sum id forget_alarm (store_uart_buffer i x s)" for i x
    using e by (cases s; cases s') (simp add: store_uart_buffer_def forget_alarm_def)
  have l: "line_ends c s' = line_ends c s"
    by (simp add: line_ends_def BUFFER_SIZE_def f)
  have k0: "map_sum id forget_alarm (Inr (x'\<lparr>index := 0\<rparr>) :: fault + state) =
            map_sum id forget_alarm (Inr (x\<lparr>index := 0\<rparr>))"
    if "forget_alarm x' = forget_alarm x" for x x'
    using that by (cases x; cases x') (simp add: forget_alarm_def)
  have k1: "map_sum id forget_alarm (Inr (x'\<lparr>index := index x' + 1\<rparr>) :: fault + state) =
            map_sum id forget_alarm (Inr (x\<lparr>index := index x + 1\<rparr>))"
    if "forget_alarm x' = forget_alarm x" for x x'
    using that by (cases x; cases x') (simp add: forget_alarm_def)
  have k2: "map_sum id forget_alarm (and_then (process_line x') (\<lambda>s2. Inr (s2\<lparr>index := 0\<rparr>))) =
            map_sum id forget_alarm (and_then (process_line x) (\<lambda>s2. Inr (s2\<lparr>index := 0\<rparr>)))"
    if "forget_alarm x' = forget_alarm x" for x x'
    by (rule and_then_forget [OF process_line_forget [OF that]]) (rule k0)
  show ?thesis
  proof (cases "line_ends c s")
    case True
    have m': "main_step c s' = and_then (store_uart_buffer (unat (index s)) (CHR 0x00) s')
               (\<lambda>s1. and_then (process_line s1) (\<lambda>s2. Inr (s2\<lparr>index := 0\<rparr>)))"
      using True l by (simp add: main_step_def f)
    have m: "main_step c s = and_then (store_uart_buffer (unat (index s)) (CHR 0x00) s)
               (\<lambda>s1. and_then (process_line s1) (\<lambda>s2. Inr (s2\<lparr>index := 0\<rparr>)))"
      using True by (simp add: main_step_def)
    show ?thesis unfolding m m'
      by (rule and_then_forget [OF st]) (rule k2)
  next
    case False
    have m': "main_step c s' = and_then (store_uart_buffer (unat (index s)) c s')
               (\<lambda>s1. Inr (s1\<lparr>index := index s1 + 1\<rparr>))"
      using False l by (simp add: main_step_def f)
    have m: "main_step c s = and_then (store_uart_buffer (unat (index s)) c s)
               (\<lambda>s1. Inr (s1\<lparr>index := index s1 + 1\<rparr>))"
      using False by (simp add: main_step_def)
    show ?thesis unfolding m m'
      by (rule and_then_forget [OF st]) (rule k1)
  qed
qed

lemma main_loop_forget:
  "forget_alarm s' = forget_alarm s \<Longrightarrow>
   map_sum id forget_alarm (main_loop cs s') = map_sum id forget_alarm (main_loop cs s)"
proof (induction cs arbitrary: s s')
  case Nil
  then show ?case by simp
next
  case (Cons c cs)
  have "forget_alarm (call (UART1_Input_Character c) s') =
        forget_alarm (call (UART1_Input_Character c) s)"
    using Cons.prems by (cases s; cases s') (simp add: forget_alarm_def call_def)
  then have "map_sum id forget_alarm
               (and_then (main_step c (call (UART1_Input_Character c) s')) (main_loop cs)) =
             map_sum id forget_alarm
               (and_then (main_step c (call (UART1_Input_Character c) s)) (main_loop cs))"
    by (intro and_then_forget main_step_forget Cons.IH)
  then show ?case by (simp only: main_loop.simps)
qed

lemma trace_forget: "map_sum id trace (map_sum id forget_alarm r) = map_sum id trace r"
  by (cases r) (simp_all add: forget_alarm_def)

lemma polls_forget: "map_sum id polls (map_sum id forget_alarm r) = map_sum id polls r"
  by (cases r) (simp_all add: forget_alarm_def)

section \<open>A parsed line: normal rendering and alarm\<close>

lemma process_line_normal:
  assumes "sscanf (c_string (uart_buffer s)) ''BTC Price: $%f, 24h Change: %f%%'' = [p, c]"
    and "float_ge p (local_threshold s)"
    and "length (sprintf_line2 (float_to_int p sdiv 1000) (float_to_int p smod 1000) c) \<le> 16"
  shows "process_line s =
     Inr (s\<lparr>price := p, change := c,
            line2 := sprintf_line2 (float_to_int p sdiv 1000) (float_to_int p smod 1000) c,
            alarmStopped := 0,
            trace := trace s @
              [LCD_Clear, LCD_Set_Cursor 0 0, LCD_Display_String ''BTC Price:'',
               LCD_Set_Cursor 0 1,
               LCD_Display_String
                 (sprintf_line2 (float_to_int p sdiv 1000) (float_to_int p smod 1000) c),
               RGB_LED_Set_Normal c, Buzzer_Off]\<rparr>)"
  using assms
  by (simp add: process_line_def process_update_def store_line2_def and_then_def Let_def
      float_ge_iff calls_def)

lemma process_line_alarm:
  assumes "sscanf (c_string (uart_buffer s)) ''BTC Price: $%f, 24h Change: %f%%'' = [p, c]"
    and "float_less p (local_threshold s)"
    and "length (sprintf_line2 (float_to_int p sdiv 1000) (float_to_int p smod 1000) c) \<le> 16"
  shows "(polls s = replicate n False @ True # rest \<longrightarrow>
          process_line s =
            Inr (s\<lparr>price := p, change := c,
                   line2 := sprintf_line2 (float_to_int p sdiv 1000) (float_to_int p smod 1000) c,
                   alarmStopped := 1, polls := rest,
                   trace := trace s @
                     concat (replicate n
                       [PushButton_Pressed False, LCD_Clear, LCD_Set_Cursor 0 0,
                        LCD_Display_String
                          (sprintf_priceStr (float_to_int p sdiv 1000) (float_to_int p smod 1000)),
                        LCD_Set_Cursor 0 1, LCD_Display_String ''BUY NOW'',
                        RGB_LED_Flash_Yellow, Buzzer_Toggle, DelayMs 150]) @
                     [PushButton_Pressed True, Buzzer_Off,
                      LCD_Clear, LCD_Set_Cursor 0 0, LCD_Display_String ''BTC Price:'',
                      LCD_Set_Cursor 0 1,
                      LCD_Display_String
                        (sprintf_line2 (float_to_int p sdiv 1000) (float_to_int p smod 1000) c),
                      RGB_LED_Set_Normal c, Buzzer_Off]\<rparr>)) \<and>
         (polls s = replicate n False \<longrightarrow> process_line s = Inl PollsExhausted)"
proof -
  let ?t = "float_to_int p sdiv 1000" and ?r = "float_to_int p smod 1000"
  let ?s1 = "s\<lparr>price := p, change := c, line2 := sprintf_line2 ?t ?r c\<rparr>"
  have lt: "float_less (price ?s1) (local_threshold ?s1)" using assms(2) by simp
  have pl: "process_line s =
      and_then (and_then (alarm_loop ?t ?r ?s1)
                  (\<lambda>s2. Inr (call Buzzer_Off (s2\<lparr>alarmStopped := 1\<rparr>))))
        (\<lambda>s3. let s4 = (if float_ge (price s3) (local_threshold s3)
                            then s3\<lparr>alarmStopped := 0\<rparr> else s3)
               in Inr (calls [LCD_Clear, LCD_Set_Cursor 0 0, LCD_Display_String ''BTC Price:'',
                              LCD_Set_Cursor 0 1, LCD_Display_String (line2 s4),
                              RGB_LED_Set_Normal (change s4), Buzzer_Off] s4))"
    using assms
    by (simp add: process_line_def process_update_def store_line2_def and_then_def Let_def)
  show ?thesis
  proof (intro conjI impI)
    assume "polls s = replicate n False @ True # rest"
    then have "polls ?s1 = replicate n False @ True # rest" by simp
    from alarm_loop_acknowledged [OF lt this, of ?t ?r] assms(2)
    show "process_line s =
            Inr (s\<lparr>price := p, change := c,
                   line2 := sprintf_line2 ?t ?r c, alarmStopped := 1, polls := rest,
                   trace := trace s @
                     concat (replicate n
                       [PushButton_Pressed False, LCD_Clear, LCD_Set_Cursor 0 0,
                        LCD_Display_String (sprintf_priceStr ?t ?r),
                        LCD_Set_Cursor 0 1, LCD_Display_String ''BUY NOW'',
                        RGB_LED_Flash_Yellow, Buzzer_Toggle, DelayMs 150]) @
                     [PushButton_Pressed True, Buzzer_Off,
                      LCD_Clear, LCD_Set_Cursor 0 0, LCD_Display_String ''BTC Price:'',
                      LCD_Set_Cursor 0 1, LCD_Display_String (sprintf_line2 ?t ?r c),
                      RGB_LED_Set_Normal c, Buzzer_Off]\<rparr>)"
      by (simp add: pl and_then_def call_def calls_def alarm_body_def float_ge_iff Let_def)
  next
    assume "polls s = replicate n False"
    then have "polls ?s1 = replicate n False" by simp
    from alarm_loop_unacknowledged [OF lt this, of ?t ?r]
    show "process_line s = Inl PollsExhausted" by (simp add: pl and_then_def)
  qed
qed

section \<open>The whole selection without a press\<close>

lemma main_no_press:
  "\<exists>s'. main buf thr al (replicate 40 False @ rest) [] = Inr s' \<and>
        local_threshold s' = int_to_float (thresholds ! 0) \<and>
        local_threshold s' = Finite 10000 \<and>
        adjustable_index s' = 0 \<and> polls s' = rest"
proof -
  let ?s0 = "calls [PushButton_Init, RGB_LED_Init, Buzzer_Init, LCD_Init, UART1_Init]
               (initial_state buf thr al (replicate 40 False @ rest))"
  let ?s1 = "calls [LCD_Clear, LCD_Set_Cursor 0 0, LCD_Display_String ''Set min val:''] ?s0"
  let ?s2 = "?s1\<lparr>threshStr := sprintf_threshStr (thresholds ! nat (adjustable_index ?s1))\<rparr>"
  let ?s3 = "calls [LCD_Set_Cursor 0 1, LCD_Display_String (threshStr ?s2)] ?s2"
  have e: "unat (elapsed ?s3) + 100 * 40 = 4000"
    by (simp add: calls_def initial_state_def)
  have p: "polls ?s3 = replicate 40 False @ rest"
    by (simp add: calls_def initial_state_def)
  have i: "adjustable_index ?s3 = 0"
    by (simp add: calls_def initial_state_def)
  note q = select_loop_quiet [OF e p]
  have "threshold_phase ?s0 =
          Inr (calls [LCD_Clear, LCD_Set_Cursor 0 0, LCD_Display_String ''Threshold Saved'',
                      DelayMs 3000, LCD_Clear]
                 (?s3\<lparr>elapsed := 4000, polls := rest,
                       trace := trace ?s3 @
                          concat (replicate 40 [PushButton_Pressed False, DelayMs 100]),
                       local_threshold := int_to_float (thresholds ! 0)\<rparr>))"
    unfolding threshold_phase_def Let_def q and_then_def using i by simp
  then show ?thesis
    by (simp add: main_def and_then_def calls_def initial_state_def int_to_float_def
        thresholds_def)
qed

section \<open>Where \<open>local_threshold\<close> is assigned\<close>

lemma select_loop_threshold:
  "select_loop s = Inr s' \<Longrightarrow> local_threshold s' = local_threshold s"
proof (induction s rule: select_loop.induct)
  case (1 s)
  show ?case
  proof (cases "elapsed s < 4000")
    case False
    with "1.prems" show ?thesis by (subst (asm) select_loop.simps) simp
  next
    case True
    show ?thesis
    proof (cases "polls s")
      case Nil
      with True "1.prems" show ?thesis by (subst (asm) select_loop.simps) simp
    next
      case (Cons p ps)
      with True "1.prems" have "select_loop (select_body p (s\<lparr>polls := ps\<rparr>)) = Inr s'"
        by (subst (asm) select_loop.simps) simp
      from "1.IH" [OF True Cons this] show ?thesis
        by (simp add: select_body_def select_tick_def select_press_def call_def calls_def Let_def)
    qed
  qed
qed

lemma threshold_phase_assigns:
  "threshold_phase s = Inr s' \<Longrightarrow>
   local_threshold s' = int_to_float (thresholds ! nat (adjustable_index s'))"
  by (auto simp: threshold_phase_def and_then_def Let_def calls_def split: sum.splits)

lemma main_threshold:
  assumes "main buf thr al ps cs = Inr s'"
  shows "local_threshold s' = int_to_float (thresholds ! nat (adjustable_index s'))"
proof -
  from assms obtain s1 where
    a: "threshold_phase (calls [PushButton_Init, RGB_LED_Init, Buzzer_Init, LCD_Init, UART1_Init]
             (initial_state buf thr al ps)) = Inr s1" and b: "main_loop cs s1 = Inr s'"
    by (auto simp: main_def and_then_def split: sum.splits)
  from threshold_phase_assigns [OF a] main_loop_threshold [OF b] show ?thesis by simp
qed

lemma Inr_projr: "r = Inr x \<Longrightarrow> r = Inr (projr r)"
  by simp

section \<open>A full buffer\<close>

lemma within_buffer_uint:
  "within_buffer s \<Longrightarrow> uint (index s) \<le> BUFFER_SIZE s - 1"
proof -
  assume "within_buffer s"
  then have "unat (index s) < length (uart_buffer s)" by (simp add: within_buffer_def)
  moreover have "uint (index s) = int (unat (index s))" by (rule uint_nat)
  ultimately show ?thesis unfolding BUFFER_SIZE_def by linarith
qed

lemma main_loop_full:
  assumes i: "index s = 0" and b: "BUFFER_SIZE s \<le> 256"
    and n: "int (length bs) = BUFFER_SIZE s - 1"
    and lf: "CHR 0x0A \<notin> set bs" and cr: "CHR 0x0D \<notin> set bs"
  shows "\<exists>s1. main_loop bs s = Inr s1 \<and> uint (index s1) = BUFFER_SIZE s - 1 \<and>
              line_ends x s1 \<and>
              main_step x s1 =
                and_then (process_line (s1\<lparr>uart_buffer := bs @ [CHR 0x00]\<rparr>))
                  (\<lambda>s2. Inr (s2\<lparr>index := 0\<rparr>))"
proof -
  let ?s1 = "s\<lparr>uart_buffer := bs @ drop (length bs) (uart_buffer s),
                index := word_of_nat (length bs),
                trace := trace s @ map UART1_Input_Character bs\<rparr>"
  have len: "length (uart_buffer s) = Suc (length bs)"
    using n by (simp add: BUFFER_SIZE_def)
  have le: "length (uart_buffer s) \<le> 256"
    using b by (simp add: BUFFER_SIZE_def)
  have f: "main_loop bs s = Inr ?s1"
    using main_loop_fill [of s bs] i len le lf cr by simp
  have u: "unat (index ?s1) = length bs"
    using len le by (simp add: unat_of_nat)
  have ui: "uint (index ?s1) = int (length bs)"
    using u uint_nat [of "index ?s1"] by simp
  have bsz: "BUFFER_SIZE ?s1 = int (length bs) + 1"
    using len by (simp add: BUFFER_SIZE_def)
  have e: "line_ends x ?s1"
    unfolding line_ends_def using ui bsz by simp
  have w: "within_buffer ?s1"
    unfolding within_buffer_def using u len by simp
  have "length (drop (length bs) (uart_buffer s)) = 1"
    using len by simp
  then obtain z where d: "drop (length bs) (uart_buffer s) = [z]"
    by (cases "drop (length bs) (uart_buffer s)") auto
  have st: "?s1\<lparr>uart_buffer := (uart_buffer ?s1)[unat (index ?s1) := CHR 0x00]\<rparr> =
            ?s1\<lparr>uart_buffer := bs @ [CHR 0x00]\<rparr>"
    unfolding u by (simp add: d list_update_append)
  have "main_step x ?s1 =
          and_then (process_line (?s1\<lparr>uart_buffer := bs @ [CHR 0x00]\<rparr>))
            (\<lambda>s2. Inr (s2\<lparr>index := 0\<rparr>))"
    using main_step_flush [OF e w] unfolding st .
  with f ui n e show ?thesis by simp
qed

lemma select_loop_buffer:
  "select_loop s = Inr s' \<Longrightarrow> uart_buffer s' = uart_buffer s \<and> index s' = index s"
proof (induction s rule: select_loop.induct)
  case (1 s)
  show ?case
  proof (cases "elapsed s < 4000")
    case False
    with "1.prems" show ?thesis by (subst (asm) select_loop.simps) simp
  next
    case True
    show ?thesis
    proof (cases "polls s")
      case Nil
      with True "1.prems" show ?thesis by (subst (asm) select_loop.simps) simp
    next
      case (Cons p ps)
      with True "1.prems" have "select_loop (select_body p (s\<lparr>polls := ps\<rparr>)) = Inr s'"
        by (subst (asm) select_loop.simps) simp
      from "1.IH" [OF True Cons this] show ?thesis
        by (simp add: select_body_def select_tick_def select_press_def call_def calls_def Let_def)
    qed
  qed
qed

lemma select_loop_fault: "select_loop s = Inl f \<Longrightarrow> f = PollsExhausted"
proof (induction s rule: select_loop.induct)
  case (1 s)
  show ?case
  proof (cases "elapsed s < 4000")
    case False
    with "1.prems" show ?thesis by (subst (asm) select_loop.simps) simp
  next
    case True
    show ?thesis
    proof (cases "polls s")
      case Nil
      with True "1.prems" show ?thesis by (subst (asm) select_loop.simps) simp
    next
      case (Cons p ps)
      with True "1.prems" have "select_loop (select_body p (s\<lparr>polls := ps\<rparr>)) = Inl f"
        by (subst (asm) select_loop.simps) simp
      from "1.IH" [OF True Cons this] show ?thesis .
    qed
  qed
qed

lemma main_within:
  assumes "buf \<noteq> []"
  shows "main buf thr al ps bs \<noteq> Inl OutOfBounds"
proof -
  let ?s0 = "calls [PushButton_Init, RGB_LED_Init, Buzzer_Init, LCD_Init, UART1_Init]
               (initial_state buf thr al ps)"
  let ?s1 = "calls [LCD_Clear, LCD_Set_Cursor 0 0, LCD_Display_String ''Set min val:''] ?s0"
  let ?s2 = "?s1\<lparr>threshStr := sprintf_threshStr (thresholds ! nat (adjustable_index ?s1))\<rparr>"
  let ?s3 = "calls [LCD_Set_Cursor 0 1, LCD_Display_String (threshStr ?s2)] ?s2"
  show ?thesis
  proof (cases "select_loop ?s3")
    case (Inl f)
    with select_loop_fault [OF Inl] show ?thesis
      by (simp add: main_def threshold_phase_def and_then_def Let_def)
  next
    case (Inr s4)
    let ?s5 = "calls [LCD_Clear, LCD_Set_Cursor 0 0, LCD_Display_String ''Threshold Saved'',
                      DelayMs 3000, LCD_Clear]
                 (s4\<lparr>local_threshold := int_to_float (thresholds ! nat (adjustable_index s4))\<rparr>)"
    from select_loop_buffer [OF Inr] assms have "within_buffer ?s5"
      by (simp add: within_buffer_def calls_def initial_state_def)
    from main_loop_within [OF this, of bs] have "main_loop bs ?s5 \<noteq> Inl OutOfBounds" by simp
    moreover have "main buf thr al ps bs = main_loop bs ?s5"
      using Inr by (simp add: main_def threshold_phase_def and_then_def Let_def)
    ultimately show ?thesis by simp
  qed
qed

section \<open>A line that does not parse\<close>

lemma sscanf_run_length: "length (sscanf_run ds inp) \<le> count_list ds Conv_f"
  by (induction ds inp rule: sscanf_run.induct) (auto split: list.splits option.splits)

lemma sscanf_at_most_two:
  "length (sscanf buf ''BTC Price: $%f, 24h Change: %f%%'') \<le> 2"
proof -
  have "count_list (parse_format ''BTC Price: $%f, 24h Change: %f%%'') Conv_f = 2"
    by (simp add: isspace_def)
  with sscanf_run_length [of "parse_format ''BTC Price: $%f, 24h Change: %f%%''" buf]
  show ?thesis by (simp add: sscanf_def)
qed

lemma process_line_malformed:
  assumes "length (sscanf (c_string (uart_buffer s)) ''BTC Price: $%f, 24h Change: %f%%'') \<noteq> 2"
  shows "\<exists>p. process_line s =
     Inr (s\<lparr>price := p,
            trace := trace s @
              [LCD_Clear, LCD_Set_Cursor 0 0, LCD_Display_String ''Loading...'',
               GPIOD_DATA_AND (NOT 0x03), Buzzer_Off]\<rparr>)"
proof -
  let ?vs = "sscanf (c_string (uart_buffer s)) ''BTC Price: $%f, 24h Change: %f%%''"
  let ?T = "trace s @ [LCD_Clear, LCD_Set_Cursor 0 0, LCD_Display_String ''Loading...'',
               GPIOD_DATA_AND (NOT 0x03), Buzzer_Off]"
  show ?thesis
  proof (cases ?vs)
    case Nil
    then have "process_line s = Inr (s\<lparr>price := price s, trace := ?T\<rparr>)"
      by (simp add: process_line_def process_malformed_def calls_def)
    then show ?thesis by blast
  next
    case (Cons p r)
    show ?thesis
    proof (cases r)
      case Nil
      with Cons have "process_line s = Inr (s\<lparr>price := p, trace := ?T\<rparr>)"
        by (simp add: process_line_def process_malformed_def calls_def)
      then show ?thesis by blast
    next
      case (Cons c r')
      with \<open>?vs = p # r\<close> assms have "r' \<noteq> []" by auto
      with Cons \<open>?vs = p # r\<close> sscanf_at_most_two [of "c_string (uart_buffer s)"]
      have "False" by (cases r') simp_all
      then show ?thesis ..
    qed
  qed
qed


lemma gpio_mask_clears: "(d AND NOT 0x03) AND 0x03 = (0 :: 32 word)"
  by (simp add: bit_eq_iff bit_simps) 

lemma process_line_nothing:
  assumes "sscanf (c_string (uart_buffer s)) ''BTC Price: $%f, 24h Change: %f%%'' = []"
  shows "process_line s =
     Inr (s\<lparr>trace := trace s @
              [LCD_Clear, LCD_Set_Cursor 0 0, LCD_Display_String ''Loading...'',
               GPIOD_DATA_AND (NOT 0x03), Buzzer_Off]\<rparr>)"
  using assms by (simp add: process_line_def process_malformed_def calls_def)

lemma garbage_line:
  "main_loop (''garbage'' @ [CHR 0x0A]) (example_state [] (Finite 10000) 0 []) =
     Inr ((example_state [] (Finite 10000) 0 [])
            \<lparr>uart_buffer := ''garbage'' @ CHR 0x00 # replicate 56 (CHR 0x00),
             trace := map UART1_Input_Character (''garbage'' @ [CHR 0x0A]) @
               [LCD_Clear, LCD_Set_Cursor 0 0, LCD_Display_String ''Loading...'',
                GPIOD_DATA_AND (NOT 0x03), Buzzer_Off]\<rparr>)"
proof -
  let ?e = "example_state [] (Finite 10000) 0 []"
  let ?s1 = "?e\<lparr>uart_buffer := ''garbage'' @ CHR 0x00 # drop (Suc (length ''garbage'')) (uart_buffer ?e),
             index := word_of_nat (length ''garbage''),
             trace := trace ?e @ map UART1_Input_Character (''garbage'' @ [CHR 0x0A])\<rparr>"
  have "main_loop (''garbage'' @ [CHR 0x0A]) ?e =
          and_then (process_line ?s1) (\<lambda>s2. Inr (s2\<lparr>index := 0\<rparr>))"
    by (intro main_loop_line) (simp_all add: example_state_def initial_state_def)
  moreover have "sscanf (c_string (uart_buffer ?s1)) ''BTC Price: $%f, 24h Change: %f%%'' = []"
    by (simp add: c_string_line [of "''garbage''", simplified] sscanf_garbage
        c_string_no_NUL [of "''garbage''", simplified])
  ultimately show ?thesis
    by (simp add: process_line_nothing and_then_def example_state_def initial_state_def)
qed


section \<open>The example line\<close>

lemma sscanf_63250:
  "sscanf ''BTC Price: $63250.50, 24h Change: -1.25%'' ''BTC Price: $%f, 24h Change: %f%%'' =
     [Finite (126501 / 2), Finite (- 5 / 4)]"
  by (simp add: scan_defs)

lemma sprintf_63250:
  "sprintf_line2 (float_to_int (Finite (126501 / 2)) sdiv 1000)
     (float_to_int (Finite (126501 / 2)) smod 1000) (Finite (- 5 / 4)) = ''$63,250  -1.25%''"
proof -
  have i: "float_to_int (Finite (126501 / 2)) = 63250"
    by (simp add: INT_MAX_def INT_MIN_def rat_floor)
  have d: "(63250 :: int) sdiv 1000 = 63" "(63250 :: int) smod 1000 = 250"
    by (simp_all add: signed_divide_int_def signed_modulo_int_def)
  show ?thesis unfolding i d
    by (simp add: sprintf_line2_def fmt_d_def fmt_03d_def dec_digits.simps digit_char_def
        round_half_even_def Let_def)
qed

lemma fits_63250:
  "length (sprintf_line2 (float_to_int (Finite (126501 / 2)) sdiv 1000)
     (float_to_int (Finite (126501 / 2)) smod 1000) (Finite (- 5 / 4))) \<le> 16"
  unfolding sprintf_63250 by simp

lemma process_line_Inr_fits:
  assumes "sscanf (c_string (uart_buffer s)) ''BTC Price: $%f, 24h Change: %f%%'' = [p, c]"
    and "process_line s = Inr s'"
  shows "length (sprintf_line2 (float_to_int p sdiv 1000) (float_to_int p smod 1000) c) \<le> 16"
proof -
  from assms have "process_update (s\<lparr>price := p, change := c\<rparr>) = Inr s'"
    by (simp add: process_line_def Let_def)
  from process_update_Inr_fits [OF this] show ?thesis by simp
qed

lemma process_line_rendered:
  assumes v: "sscanf (c_string (uart_buffer s)) ''BTC Price: $%f, 24h Change: %f%%'' = [p, c]"
    and r: "process_line s = Inr s'"
  shows "price s' = p \<and> change s' = c \<and>
         line2 s' = sprintf_line2 (float_to_int p sdiv 1000) (float_to_int p smod 1000) c \<and>
         (\<exists>pre. trace s' = pre @
            [LCD_Clear, LCD_Set_Cursor 0 0, LCD_Display_String ''BTC Price:'',
             LCD_Set_Cursor 0 1,
             LCD_Display_String
               (sprintf_line2 (float_to_int p sdiv 1000) (float_to_int p smod 1000) c),
             RGB_LED_Set_Normal c, Buzzer_Off])"
proof (cases "float_less p (local_threshold s)")
  case False
  note fits = process_line_Inr_fits [OF v r]
  from False have g: "float_ge p (local_threshold s)" by (simp add: float_ge_iff)
  from process_line_normal [OF v g fits] r
  have s': "s' = s\<lparr>price := p, change := c,
            line2 := sprintf_line2 (float_to_int p sdiv 1000) (float_to_int p smod 1000) c,
            alarmStopped := 0,
            trace := trace s @
              [LCD_Clear, LCD_Set_Cursor 0 0, LCD_Display_String ''BTC Price:'',
               LCD_Set_Cursor 0 1,
               LCD_Display_String
                 (sprintf_line2 (float_to_int p sdiv 1000) (float_to_int p smod 1000) c),
               RGB_LED_Set_Normal c, Buzzer_Off]\<rparr>"
    by simp
  have "\<exists>pre. trace s' = pre @
            [LCD_Clear, LCD_Set_Cursor 0 0, LCD_Display_String ''BTC Price:'',
             LCD_Set_Cursor 0 1,
             LCD_Display_String
               (sprintf_line2 (float_to_int p sdiv 1000) (float_to_int p smod 1000) c),
             RGB_LED_Set_Normal c, Buzzer_Off]"
    unfolding s' by (intro exI [of _ "trace s"]) simp
  then show ?thesis unfolding s' by simp
next
  case True
  note fits = process_line_Inr_fits [OF v r]
  from polls_cases [of "polls s"] show ?thesis
  proof
    assume "\<exists>n. polls s = replicate n False"
    then obtain n where "polls s = replicate n False" ..
    from process_line_alarm [OF v True fits, THEN conjunct2, THEN mp, OF this] r
    show ?thesis by simp
  next
    assume "\<exists>n rest. polls s = replicate n False @ True # rest"
    then obtain n rest where "polls s = replicate n False @ True # rest" by blast
    from process_line_alarm [OF v True fits, THEN conjunct1, THEN mp, OF this] r
    have s': "s' = s\<lparr>price := p, change := c,
                   line2 := sprintf_line2 (float_to_int p sdiv 1000) (float_to_int p smod 1000) c,
                   alarmStopped := 1, polls := rest,
                   trace := trace s @
                     concat (replicate n
                       [PushButton_Pressed False, LCD_Clear, LCD_Set_Cursor 0 0,
                        LCD_Display_String
                          (sprintf_priceStr (float_to_int p sdiv 1000) (float_to_int p smod 1000)),
                        LCD_Set_Cursor 0 1, LCD_Display_String ''BUY NOW'',
                        RGB_LED_Flash_Yellow, Buzzer_Toggle, DelayMs 150]) @
                     [PushButton_Pressed True, Buzzer_Off,
                      LCD_Clear, LCD_Set_Cursor 0 0, LCD_Display_String ''BTC Price:'',
                      LCD_Set_Cursor 0 1,
                      LCD_Display_String
                        (sprintf_line2 (float_to_int p sdiv 1000) (float_to_int p smod 1000) c),
                      RGB_LED_Set_Normal c, Buzzer_Off]\<rparr>"
      by simp
    have "\<exists>pre. trace s' = pre @
            [LCD_Clear, LCD_Set_Cursor 0 0, LCD_Display_String ''BTC Price:'',
             LCD_Set_Cursor 0 1,
             LCD_Display_String
               (sprintf_line2 (float_to_int p sdiv 1000) (float_to_int p smod 1000) c),
             RGB_LED_Set_Normal c, Buzzer_Off]"
      unfolding s'
      by (intro exI [of _ "trace s @
                     concat (replicate n
                       [PushButton_Pressed False, LCD_Clear, LCD_Set_Cursor 0 0,
                        LCD_Display_String
                          (sprintf_priceStr (float_to_int p sdiv 1000) (float_to_int p smod 1000)),
                        LCD_Set_Cursor 0 1, LCD_Display_String ''BUY NOW'',
                        RGB_LED_Flash_Yellow, Buzzer_Toggle, DelayMs 150]) @
                     [PushButton_Pressed True, Buzzer_Off]"]) simp
    then show ?thesis unfolding s' by simp
  qed
qed

lemma example_run_63250:
  "main_loop (''BTC Price: $63250.50, 24h Change: -1.25%'' @ [CHR 0x0A])
     (example_state [] (Finite 10000) 1 []) =
   Inr ((example_state [] (Finite 10000) 1 [])
          \<lparr>uart_buffer := ''BTC Price: $63250.50, 24h Change: -1.25%'' @ CHR 0x00 #
                            replicate 23 (CHR 0x00),
           price := Finite (126501 / 2), change := Finite (- 5 / 4),
           line2 := ''$63,250  -1.25%'', alarmStopped := 0,
           trace := map UART1_Input_Character
                      (''BTC Price: $63250.50, 24h Change: -1.25%'' @ [CHR 0x0A]) @
             [LCD_Clear, LCD_Set_Cursor 0 0, LCD_Display_String ''BTC Price:'',
              LCD_Set_Cursor 0 1, LCD_Display_String ''$63,250  -1.25%'',
              RGB_LED_Set_Normal (Finite (- 5 / 4)), Buzzer_Off]\<rparr>)"
proof -
  let ?L = "''BTC Price: $63250.50, 24h Change: -1.25%''"
  let ?e = "example_state [] (Finite 10000) 1 []"
  let ?s1 = "?e\<lparr>uart_buffer := ?L @ CHR 0x00 # drop (Suc (length ?L)) (uart_buffer ?e),
               index := word_of_nat (length ?L),
               trace := trace ?e @ map UART1_Input_Character (?L @ [CHR 0x0A])\<rparr>"
  have m: "main_loop (?L @ [CHR 0x0A]) ?e =
          and_then (process_line ?s1) (\<lambda>s2. Inr (s2\<lparr>index := 0\<rparr>))"
    by (intro main_loop_line) (simp_all add: example_state_def initial_state_def)
  have "c_string (uart_buffer ?s1) = ?L"
    by (simp add: c_string_line [of ?L, simplified] c_string_no_NUL [of ?L, simplified])
  then have v: "sscanf (c_string (uart_buffer ?s1)) ''BTC Price: $%f, 24h Change: %f%%'' =
              [Finite (126501 / 2), Finite (- 5 / 4)]"
    by (simp only: sscanf_63250)
  have g: "float_ge (Finite (126501 / 2)) (local_threshold ?s1)"
    by (simp add: example_state_def initial_state_def)
  note P = process_line_normal [OF v g fits_63250, unfolded sprintf_63250]
  show ?thesis unfolding m P
    by (simp add: and_then_def example_state_def initial_state_def)
qed

section \<open>A line whose text does not fit \<open>line2\<close>\<close>

lemma process_line_overflow:
  assumes "sscanf (c_string (uart_buffer s)) ''BTC Price: $%f, 24h Change: %f%%'' = [p, c]"
    and "\<not> length (sprintf_line2 (float_to_int p sdiv 1000) (float_to_int p smod 1000) c) \<le> 16"
  shows "process_line s = Inl Line2Overflow"
proof -
  from assms(1) have "process_line s = process_update (s\<lparr>price := p, change := c\<rparr>)"
    by (simp add: process_line_def Let_def)
  also have "\<dots> = Inl Line2Overflow"
    using assms(2) by (intro process_update_overflow) simp
  finally show ?thesis .
qed

lemma sscanf_105000:
  "sscanf ''BTC Price: $105000.00, 24h Change: 10.50%'' ''BTC Price: $%f, 24h Change: %f%%'' =
     [Finite 105000, Finite (21 / 2)]"
  by (simp add: scan_defs)

lemma sprintf_105000:
  "sprintf_line2 (float_to_int (Finite 105000) sdiv 1000)
     (float_to_int (Finite 105000) smod 1000) (Finite (21 / 2)) = ''$105,000  +10.50%''"
proof -
  have i: "float_to_int (Finite 105000) = 105000"
    by (simp add: INT_MAX_def INT_MIN_def)
  have d: "(105000 :: int) sdiv 1000 = 105" "(105000 :: int) smod 1000 = 0"
    by (simp_all add: signed_divide_int_def signed_modulo_int_def)
  show ?thesis unfolding i d
    by (simp add: sprintf_line2_def fmt_d_def fmt_03d_def dec_digits.simps digit_char_def
        round_half_even_def Let_def replicate_small rat_floor)
qed

lemma example_run_105000:
  "main_loop (''BTC Price: $105000.00, 24h Change: 10.50%'' @ [CHR 0x0A])
     (example_state [] (Finite 10000) 0 []) = Inl Line2Overflow"
proof -
  let ?L = "''BTC Price: $105000.00, 24h Change: 10.50%''"
  let ?e = "example_state [] (Finite 10000) 0 []"
  let ?s1 = "?e\<lparr>uart_buffer := ?L @ CHR 0x00 # drop (Suc (length ?L)) (uart_buffer ?e),
               index := word_of_nat (length ?L),
               trace := trace ?e @ map UART1_Input_Character (?L @ [CHR 0x0A])\<rparr>"
  have m: "main_loop (?L @ [CHR 0x0A]) ?e =
          and_then (process_line ?s1) (\<lambda>s2. Inr (s2\<lparr>index := 0\<rparr>))"
    by (intro main_loop_line) (simp_all add: example_state_def initial_state_def)
  have "c_string (uart_buffer ?s1) = ?L"
    by (simp add: c_string_line [of ?L, simplified] c_string_no_NUL [of ?L, simplified])
  then have v: "sscanf (c_string (uart_buffer ?s1)) ''BTC Price: $%f, 24h Change: %f%%'' =
              [Finite 105000, Finite (21 / 2)]"
    by (simp only: sscanf_105000)
  have o: "\<not> length (sprintf_line2 (float_to_int (Finite 105000) sdiv 1000)
             (float_to_int (Finite 105000) smod 1000) (Finite (21 / 2))) \<le> 16"
    unfolding sprintf_105000 by simp
  show ?thesis unfolding m process_line_overflow [OF v o] by (simp add: and_then_def)
qed

section \<open>The selection loop with presses\<close>

lemma select_body_quiet:
  "select_body False s =
     s\<lparr>elapsed := elapsed s + 100, trace := trace s @ [PushButton_Pressed False, DelayMs 100]\<rparr>"
  by (simp add: select_body_def select_tick_def call_def Let_def)

lemma select_body_press:
  "select_body True s =
     s\<lparr>adjustable_index := (adjustable_index s + 1) smod total_thresholds,
       threshStr := sprintf_threshStr
                      (thresholds ! nat ((adjustable_index s + 1) smod total_thresholds)),
       elapsed := 100,
       trace := trace s @
         [PushButton_Pressed True, LCD_Set_Cursor 0 1,
          LCD_Display_String
            (sprintf_threshStr (thresholds ! nat ((adjustable_index s + 1) smod total_thresholds))),
          DelayMs 300, DelayMs 100]\<rparr>"
  by (simp add: select_body_def select_tick_def select_press_def call_def calls_def Let_def)

lemma select_loop_presses:
  "select_loop s = Inr s' \<Longrightarrow> 0 \<le> adjustable_index s \<Longrightarrow> adjustable_index s < 12 \<Longrightarrow>
   \<exists>es. trace s' = trace s @ es \<and>
        adjustable_index s' =
          (adjustable_index s + int (count_list es (PushButton_Pressed True))) mod 12"
proof (induction s rule: select_loop.induct)
  case (1 s)
  show ?case
  proof (cases "elapsed s < 4000")
    case False
    with "1.prems"(1) have "s' = s" by (subst (asm) select_loop.simps) simp
    with "1.prems"(2,3) have "trace s' = trace s @ [] \<and>
        adjustable_index s' =
          (adjustable_index s + int (count_list [] (PushButton_Pressed True))) mod 12"
      by simp
    then show ?thesis by blast
  next
    case True
    show ?thesis
    proof (cases "polls s")
      case Nil
      with True "1.prems"(1) show ?thesis by (subst (asm) select_loop.simps) simp
    next
      case (Cons p ps)
      let ?s1 = "select_body p (s\<lparr>polls := ps\<rparr>)"
      from Cons True "1.prems"(1) have r: "select_loop ?s1 = Inr s'"
        by (subst (asm) select_loop.simps) simp
      show ?thesis
      proof (cases p)
        case False
        then have pf: "p = False" by simp
        have i: "adjustable_index ?s1 = adjustable_index s"
          and t: "trace ?s1 = trace s @ [PushButton_Pressed False, DelayMs 100]"
          unfolding pf select_body_quiet by simp_all
        from "1.IH" [OF True Cons r] "1.prems"(2,3) i obtain es where
          e: "trace s' = trace ?s1 @ es" and
          a: "adjustable_index s' =
                (adjustable_index s + int (count_list es (PushButton_Pressed True))) mod 12"
          by auto
        have "trace s' = trace s @ ([PushButton_Pressed False, DelayMs 100] @ es) \<and>
           adjustable_index s' = (adjustable_index s +
              int (count_list ([PushButton_Pressed False, DelayMs 100] @ es)
                     (PushButton_Pressed True))) mod 12"
          using e a t by simp
        then show ?thesis by blast
      next
        case True
        then have pt: "p = True" by simp
        let ?b = "[PushButton_Pressed True, LCD_Set_Cursor 0 1,
          LCD_Display_String
            (sprintf_threshStr (thresholds ! nat ((adjustable_index s + 1) smod total_thresholds))),
          DelayMs 300, DelayMs 100]"
        have i: "adjustable_index ?s1 = (adjustable_index s + 1) mod 12"
          unfolding pt select_body_press using "1.prems"(2)
          by (simp add: total_thresholds_12 smod_nonneg)
        have t: "trace ?s1 = trace s @ ?b"
          unfolding pt select_body_press by simp
        have r0: "0 \<le> adjustable_index ?s1" "adjustable_index ?s1 < 12"
          unfolding i by simp_all
        from "1.IH" [OF \<open>elapsed s < 4000\<close> Cons r r0] obtain es where
          e: "trace s' = trace ?s1 @ es" and
          a: "adjustable_index s' =
                (adjustable_index ?s1 + int (count_list es (PushButton_Pressed True))) mod 12"
          by auto
        have c: "count_list (?b @ es) (PushButton_Pressed True) =
                 Suc (count_list es (PushButton_Pressed True))"
          by simp
        have "adjustable_index s' =
               (adjustable_index s + int (count_list (?b @ es) (PushButton_Pressed True))) mod 12"
          unfolding a i c by (simp add: mod_simps algebra_simps)
        with e t have "trace s' = trace s @ (?b @ es) \<and>
           adjustable_index s' =
               (adjustable_index s + int (count_list (?b @ es) (PushButton_Pressed True))) mod 12"
          by simp
        then show ?thesis by blast
      qed
    qed
  qed
qed

lemma select_loop_after_press:
  assumes "elapsed s < 4000" and "polls s = True # replicate 39 False @ rest"
  shows "select_loop s =
     Inr (s\<lparr>adjustable_index := (adjustable_index s + 1) smod total_thresholds,
            threshStr := sprintf_threshStr
                           (thresholds ! nat ((adjustable_index s + 1) smod total_thresholds)),
            elapsed := 4000, polls := rest,
            trace := trace s @
              [PushButton_Pressed True, LCD_Set_Cursor 0 1,
               LCD_Display_String
                 (sprintf_threshStr
                    (thresholds ! nat ((adjustable_index s + 1) smod total_thresholds))),
               DelayMs 300, DelayMs 100] @
              concat (replicate 39 [PushButton_Pressed False, DelayMs 100])\<rparr>)"
proof -
  let ?s1 = "select_body True (s\<lparr>polls := replicate 39 False @ rest\<rparr>)"
  have "select_loop s = select_loop ?s1"
    using assms by (subst select_loop.simps) simp
  moreover have "unat (elapsed ?s1) + 100 * 39 = 4000"
    unfolding select_body_press by simp
  moreover have "polls ?s1 = replicate 39 False @ rest"
    unfolding select_body_press by simp
  ultimately show ?thesis
    by (simp add: select_loop_quiet) (simp add: select_body_press)
qed

lemma select_loop_after_press_waiting:
  assumes "elapsed s < 4000" and "n < 39" and "polls s = True # replicate n False"
  shows "select_loop s = Inl PollsExhausted"
proof -
  let ?s1 = "select_body True (s\<lparr>polls := replicate n False\<rparr>)"
  have "select_loop s = select_loop ?s1"
    using assms by (subst select_loop.simps) simp
  moreover have "unat (elapsed ?s1) + 100 * n < 4000"
    unfolding select_body_press using assms(2) by simp
  moreover have "polls ?s1 = replicate n False"
    unfolding select_body_press by simp
  ultimately show ?thesis
    by (simp add: select_loop_waiting)
qed


text \<open>Any number of presses, each within the window.\<close>

lemma count_quiet:
  "count_list (concat (replicate n [PushButton_Pressed False, DelayMs 100]))
     (PushButton_Pressed True) = 0"
  by (induction n) simp_all

lemma select_loop_gap:
  "unat (elapsed s) + 100 * g < 4000 \<Longrightarrow> polls s = replicate g False @ True # ps \<Longrightarrow>
   \<exists>s1 es. select_loop s = select_loop s1 \<and>
     adjustable_index s1 = (adjustable_index s + 1) smod total_thresholds \<and>
     elapsed s1 = 100 \<and> polls s1 = ps \<and> trace s1 = trace s @ es \<and>
     count_list es (PushButton_Pressed True) = 1"
proof (induction g arbitrary: s)
  case 0
  let ?s1 = "select_body True (s\<lparr>polls := ps\<rparr>)"
  let ?es = "[PushButton_Pressed True, LCD_Set_Cursor 0 1,
          LCD_Display_String
            (sprintf_threshStr (thresholds ! nat ((adjustable_index s + 1) smod total_thresholds))),
          DelayMs 300, DelayMs 100]"
  have "select_loop s = select_loop ?s1"
    using 0 by (subst select_loop.simps) (simp add: elapsed_lt)
  moreover have "adjustable_index ?s1 = (adjustable_index s + 1) smod total_thresholds"
    "elapsed ?s1 = 100" "polls ?s1 = ps" "trace ?s1 = trace s @ ?es"
    unfolding select_body_press by simp_all
  moreover have "count_list ?es (PushButton_Pressed True) = 1" by simp
  ultimately show ?case by blast
next
  case (Suc g)
  let ?s1 = "select_body False (s\<lparr>polls := replicate g False @ True # ps\<rparr>)"
  have lt: "unat (elapsed s) < 4000" using Suc.prems(1) by simp
  have e1: "unat (elapsed ?s1) + 100 * g < 4000"
    using Suc.prems(1) elapsed_step [OF lt] unfolding select_body_quiet by simp
  have p1: "polls ?s1 = replicate g False @ True # ps"
    unfolding select_body_quiet by simp
  have l: "select_loop s = select_loop ?s1"
    using lt Suc.prems(2) by (subst select_loop.simps) (simp add: elapsed_lt)
  from Suc.IH [OF e1 p1] obtain s2 es where
    a: "select_loop ?s1 = select_loop s2"
    and b: "adjustable_index s2 = (adjustable_index ?s1 + 1) smod total_thresholds"
    and c: "elapsed s2 = 100" "polls s2 = ps"
    and d: "trace s2 = trace ?s1 @ es"
    and e: "count_list es (PushButton_Pressed True) = 1"
    by blast
  have b': "adjustable_index s2 = (adjustable_index s + 1) smod total_thresholds"
    unfolding b select_body_quiet by simp
  have d': "trace s2 = trace s @ ([PushButton_Pressed False, DelayMs 100] @ es)"
    unfolding d select_body_quiet by simp
  have e': "count_list ([PushButton_Pressed False, DelayMs 100] @ es) (PushButton_Pressed True) = 1"
    using e by simp
  from l a have "select_loop s = select_loop s2" by simp
  with b' c d' e' show ?case by blast
qed

lemma select_loop_cycles:
  "0 \<le> adjustable_index s \<Longrightarrow> adjustable_index s < 12 \<Longrightarrow>
   unat (elapsed s) + 100 * k = 4000 \<Longrightarrow> in_window k gs \<Longrightarrow>
   polls s = press_polls gs @ replicate (if gs = [] then k else 39) False @ rest \<Longrightarrow>
   \<exists>s' es. select_loop s = Inr s' \<and>
     adjustable_index s' = (adjustable_index s + int (length gs)) mod 12 \<and>
     elapsed s' = 4000 \<and> polls s' = rest \<and> trace s' = trace s @ es \<and>
     count_list es (PushButton_Pressed True) = length gs"
proof (induction gs arbitrary: s k)
  case Nil
  let ?es = "concat (replicate k [PushButton_Pressed False, DelayMs 100])"
  let ?s' = "s\<lparr>elapsed := 4000, polls := rest, trace := trace s @ ?es\<rparr>"
  from Nil.prems(5) have "polls s = replicate k False @ rest" by simp
  from select_loop_quiet [OF Nil.prems(3) this] have "select_loop s = Inr ?s'" .
  moreover have "adjustable_index ?s' = (adjustable_index s + int (length ([] :: nat list))) mod 12"
    using Nil.prems(1,2) by simp
  moreover have "elapsed ?s' = 4000" "polls ?s' = rest" "trace ?s' = trace s @ ?es" by simp_all
  moreover have "count_list ?es (PushButton_Pressed True) = length ([] :: nat list)"
    by (simp add: count_quiet)
  ultimately show ?case by blast
next
  case (Cons g gs)
  from Cons.prems(4) have g: "g < k" and w: "in_window 39 gs" by simp_all
  from g Cons.prems(3) have lt: "unat (elapsed s) + 100 * g < 4000" by simp
  from Cons.prems(5) have p: "polls s = replicate g False @ True #
      (press_polls gs @ replicate 39 False @ rest)" by simp
  from select_loop_gap [OF lt p] obtain s1 es where
    a: "select_loop s = select_loop s1"
    and b: "adjustable_index s1 = (adjustable_index s + 1) smod total_thresholds"
    and c: "elapsed s1 = 100"
    and d: "polls s1 = press_polls gs @ replicate 39 False @ rest"
    and e: "trace s1 = trace s @ es"
    and f: "count_list es (PushButton_Pressed True) = 1"
    by blast
  have b': "adjustable_index s1 = (adjustable_index s + 1) mod 12"
    unfolding b using Cons.prems(1) by (simp add: total_thresholds_12 smod_nonneg)
  have r: "0 \<le> adjustable_index s1" "adjustable_index s1 < 12" unfolding b' by simp_all
  have e1: "unat (elapsed s1) + 100 * 39 = 4000" unfolding c by simp
  have d1: "polls s1 = press_polls gs @ replicate (if gs = [] then 39 else 39) False @ rest"
    unfolding d by simp
  from Cons.IH [OF r e1 w d1] obtain s' es' where
    a': "select_loop s1 = Inr s'"
    and i: "adjustable_index s' = (adjustable_index s1 + int (length gs)) mod 12"
    and j: "elapsed s' = 4000" "polls s' = rest"
    and t: "trace s' = trace s1 @ es'"
    and n: "count_list es' (PushButton_Pressed True) = length gs"
    by blast
  have "select_loop s = Inr s'" using a a' by simp
  moreover have "adjustable_index s' = (adjustable_index s + int (length (g # gs))) mod 12"
    unfolding i b' by (simp add: mod_simps algebra_simps)
  moreover have "trace s' = trace s @ (es @ es')" unfolding t e by simp
  moreover have "count_list (es @ es') (PushButton_Pressed True) = length (g # gs)"
    using f n by simp
  ultimately show ?case using j by blast
qed

lemma select_loop_from_start:
  assumes "elapsed s = 0" and "adjustable_index s = 0" and "in_window 40 gs"
    and "polls s = press_polls gs @ replicate (if gs = [] then 40 else 39) False @ rest"
  shows "\<exists>s2 es. select_loop s = Inr s2 \<and>
     adjustable_index s2 = int (length gs) mod total_thresholds \<and>
     elapsed s2 = 4000 \<and> polls s2 = rest \<and> trace s2 = trace s @ es \<and>
     count_list es (PushButton_Pressed True) = length gs"
proof -
  have "0 \<le> adjustable_index s" "adjustable_index s < 12" "unat (elapsed s) + 100 * 40 = 4000"
    using assms(1,2) by simp_all
  from select_loop_cycles [OF this assms(3,4)] show ?thesis
    unfolding assms(2) total_thresholds_12 by simp
qed

lemma sprintf_threshStr_20000: "sprintf_threshStr 20000 = ''$20000  ''"
  by (simp add: sprintf_threshStr_def fmt_left7_d_def fmt_d_def dec_digits.simps digit_char_def
      replicate_small)

section \<open>Two lines below the threshold\<close>

lemma example_alarm_line:
  assumes i: "index s = 0" and n: "length (uart_buffer s) = 64"
    and t: "local_threshold s = Finite 70000" and p: "polls s = False # True # rest"
  shows "main_loop (''BTC Price: $65000.00, 24h Change: -1.25%'' @ [CHR 0x0A]) s =
     Inr (s\<lparr>uart_buffer := ''BTC Price: $65000.00, 24h Change: -1.25%'' @ CHR 0x00 #
                              drop (Suc (length ''BTC Price: $65000.00, 24h Change: -1.25%''))
                                (uart_buffer s),
            price := Finite 65000, change := Finite (- 5 / 4),
            line2 := ''$65,000  -1.25%'', alarmStopped := 1, polls := rest,
            trace := trace s @
              map UART1_Input_Character (''BTC Price: $65000.00, 24h Change: -1.25%'' @ [CHR 0x0A]) @
              [PushButton_Pressed False, LCD_Clear, LCD_Set_Cursor 0 0,
               LCD_Display_String ''$65,000'', LCD_Set_Cursor 0 1,
               LCD_Display_String ''BUY NOW'', RGB_LED_Flash_Yellow, Buzzer_Toggle,
               DelayMs 150, PushButton_Pressed True, Buzzer_Off,
               LCD_Clear, LCD_Set_Cursor 0 0, LCD_Display_String ''BTC Price:'',
               LCD_Set_Cursor 0 1, LCD_Display_String ''$65,000  -1.25%'',
               RGB_LED_Set_Normal (Finite (- 5 / 4)), Buzzer_Off]\<rparr>)"
proof -
  let ?L = "''BTC Price: $65000.00, 24h Change: -1.25%''"
  let ?s1 = "s\<lparr>uart_buffer := ?L @ CHR 0x00 # drop (Suc (length ?L)) (uart_buffer s),
               index := word_of_nat (length ?L),
               trace := trace s @ map UART1_Input_Character (?L @ [CHR 0x0A])\<rparr>"
  have m: "main_loop (?L @ [CHR 0x0A]) s =
          and_then (process_line ?s1) (\<lambda>s2. Inr (s2\<lparr>index := 0\<rparr>))"
    using i n by (intro main_loop_line) simp_all
  have "c_string (uart_buffer ?s1) = ?L"
    by (simp add: c_string_line [of ?L, simplified] c_string_no_NUL [of ?L, simplified])
  moreover have "sscanf ?L ''BTC Price: $%f, 24h Change: %f%%'' = [Finite 65000, Finite (- 5 / 4)]"
    by (simp add: scan_defs)
  ultimately have v: "sscanf (c_string (uart_buffer ?s1)) ''BTC Price: $%f, 24h Change: %f%%'' =
              [Finite 65000, Finite (- 5 / 4)]"
    by (simp only:)
  have l: "float_less (Finite 65000) (local_threshold ?s1)"
    using t by simp
  have ps: "polls ?s1 = replicate 1 False @ True # rest"
    using p by simp
  note P = process_line_alarm [OF v l fits_65000, THEN conjunct1, THEN mp, OF ps,
             unfolded sprintf_65000]
  have e: "?s1\<lparr>price := Finite 65000, change := Finite (- 5 / 4),
            line2 := ''$65,000  -1.25%'', alarmStopped := 1, polls := rest,
            trace := trace ?s1 @
              concat (replicate 1 [PushButton_Pressed False, LCD_Clear, LCD_Set_Cursor 0 0,
               LCD_Display_String ''$65,000'', LCD_Set_Cursor 0 1,
               LCD_Display_String ''BUY NOW'', RGB_LED_Flash_Yellow, Buzzer_Toggle,
               DelayMs 150]) @ [PushButton_Pressed True, Buzzer_Off,
               LCD_Clear, LCD_Set_Cursor 0 0, LCD_Display_String ''BTC Price:'',
               LCD_Set_Cursor 0 1, LCD_Display_String ''$65,000  -1.25%'',
               RGB_LED_Set_Normal (Finite (- 5 / 4)), Buzzer_Off], index := 0\<rparr> =
          s\<lparr>uart_buffer := ?L @ CHR 0x00 # drop (Suc (length ?L)) (uart_buffer s),
            price := Finite 65000, change := Finite (- 5 / 4),
            line2 := ''$65,000  -1.25%'', alarmStopped := 1, polls := rest,
            trace := trace s @
              map UART1_Input_Character (?L @ [CHR 0x0A]) @
              [PushButton_Pressed False, LCD_Clear, LCD_Set_Cursor 0 0,
               LCD_Display_String ''$65,000'', LCD_Set_Cursor 0 1,
               LCD_Display_String ''BUY NOW'', RGB_LED_Flash_Yellow, Buzzer_Toggle,
               DelayMs 150, PushButton_Pressed True, Buzzer_Off,
               LCD_Clear, LCD_Set_Cursor 0 0, LCD_Display_String ''BTC Price:'',
               LCD_Set_Cursor 0 1, LCD_Display_String ''$65,000  -1.25%'',
               RGB_LED_Set_Normal (Finite (- 5 / 4)), Buzzer_Off]\<rparr>"
    using i by (cases s) simp
  show ?thesis unfolding m P and_then_def sum.case e ..
qed


lemma first_alarm_line:
  "main_loop alarm_line (example_state [] (Finite 70000) 0 [False, True, False, True]) =
     Inr ((example_state [] (Finite 70000) 0 [False, True, False, True])
            \<lparr>uart_buffer := ''BTC Price: $65000.00, 24h Change: -1.25%'' @ CHR 0x00 #
                              replicate 23 (CHR 0x00),
             price := Finite 65000, change := Finite (- 5 / 4),
             line2 := ''$65,000  -1.25%'', alarmStopped := 1, polls := [False, True],
             trace := map UART1_Input_Character alarm_line @
               [PushButton_Pressed False, LCD_Clear, LCD_Set_Cursor 0 0,
                LCD_Display_String ''$65,000'', LCD_Set_Cursor 0 1,
                LCD_Display_String ''BUY NOW'', RGB_LED_Flash_Yellow, Buzzer_Toggle,
                DelayMs 150, PushButton_Pressed True, Buzzer_Off,
                LCD_Clear, LCD_Set_Cursor 0 0, LCD_Display_String ''BTC Price:'',
                LCD_Set_Cursor 0 1, LCD_Display_String ''$65,000  -1.25%'',
                RGB_LED_Set_Normal (Finite (- 5 / 4)), Buzzer_Off]\<rparr>)"
proof -
  let ?e = "example_state [] (Finite 70000) 0 [False, True, False, True]"
  have "index ?e = 0" "length (uart_buffer ?e) = 64" "local_threshold ?e = Finite 70000"
    "polls ?e = False # True # [False, True]"
    by (simp_all add: example_state_def initial_state_def)
  from example_alarm_line [OF this] show ?thesis
    unfolding alarm_line_def by (simp add: example_state_def initial_state_def)
qed

section \<open>Claims\<close>

text \<open>
  C1. The claim is that a line with a price below \<open>local_threshold\<close>, arriving while
  \<open>alarmStopped\<close> is set, skips the alarm loop and is rendered the normal way, so that the
  alarm is raised at most once per excursion below the threshold. The program does not test
  \<open>alarmStopped\<close>. In this run, under a threshold of 70000, a first line at 65000 raises the
  alarm, the press ends it and leaves \<open>alarmStopped = 1\<close>; a second line at the same price
  enters the alarm loop again: one more pass with \<open>"BUY NOW"\<close>, the yellow flash and the buzzer
  toggle, until the next press.
\<close>

theorem alarm_reentered_while_latched:
  "main_loop alarm_line (example_state [] (Finite 70000) 0 [False, True, False, True]) =
     Inr after_acknowledgement \<and>
   alarmStopped after_acknowledgement = 1 \<and>
   local_threshold after_acknowledgement = Finite 70000 \<and>
   polls after_acknowledgement = [False, True] \<and>
   main_loop alarm_line after_acknowledgement =
     Inr (after_acknowledgement
            \<lparr>polls := [],
             trace := trace after_acknowledgement @ map UART1_Input_Character alarm_line @
               [PushButton_Pressed False, LCD_Clear, LCD_Set_Cursor 0 0,
                LCD_Display_String ''$65,000'', LCD_Set_Cursor 0 1,
                LCD_Display_String ''BUY NOW'', RGB_LED_Flash_Yellow, Buzzer_Toggle,
                DelayMs 150, PushButton_Pressed True, Buzzer_Off,
                LCD_Clear, LCD_Set_Cursor 0 0, LCD_Display_String ''BTC Price:'',
                LCD_Set_Cursor 0 1, LCD_Display_String ''$65,000  -1.25%'',
                RGB_LED_Set_Normal (Finite (- 5 / 4)), Buzzer_Off]\<rparr>)"
proof -
  let ?e = "example_state [] (Finite 70000) 0 [False, True, False, True]"
  let ?a = "?e\<lparr>uart_buffer := ''BTC Price: $65000.00, 24h Change: -1.25%'' @ CHR 0x00 #
                              replicate 23 (CHR 0x00),
             price := Finite 65000, change := Finite (- 5 / 4),
             line2 := ''$65,000  -1.25%'', alarmStopped := 1, polls := [False, True],
             trace := map UART1_Input_Character alarm_line @
               [PushButton_Pressed False, LCD_Clear, LCD_Set_Cursor 0 0,
                LCD_Display_String ''$65,000'', LCD_Set_Cursor 0 1,
                LCD_Display_String ''BUY NOW'', RGB_LED_Flash_Yellow, Buzzer_Toggle,
                DelayMs 150, PushButton_Pressed True, Buzzer_Off,
                LCD_Clear, LCD_Set_Cursor 0 0, LCD_Display_String ''BTC Price:'',
                LCD_Set_Cursor 0 1, LCD_Display_String ''$65,000  -1.25%'',
                RGB_LED_Set_Normal (Finite (- 5 / 4)), Buzzer_Off]\<rparr>"
  have a: "after_acknowledgement = ?a"
    unfolding after_acknowledgement_def first_alarm_line by simp
  have f: "main_loop alarm_line ?e = Inr after_acknowledgement"
    unfolding a by (rule first_alarm_line)
  have h: "index ?a = 0" "length (uart_buffer ?a) = 64" "local_threshold ?a = Finite 70000"
    "polls ?a = False # True # []"
    by (simp_all add: example_state_def initial_state_def)
  have g: "alarmStopped ?a = 1" by simp
  have d: "drop (Suc (length ''BTC Price: $65000.00, 24h Change: -1.25%'')) (uart_buffer ?a) =
           replicate 23 (CHR 0x00)"
    by simp
  have s: "main_loop alarm_line ?a =
     Inr (?a\<lparr>polls := [],
             trace := trace ?a @ map UART1_Input_Character alarm_line @
               [PushButton_Pressed False, LCD_Clear, LCD_Set_Cursor 0 0,
                LCD_Display_String ''$65,000'', LCD_Set_Cursor 0 1,
                LCD_Display_String ''BUY NOW'', RGB_LED_Flash_Yellow, Buzzer_Toggle,
                DelayMs 150, PushButton_Pressed True, Buzzer_Off,
                LCD_Clear, LCD_Set_Cursor 0 0, LCD_Display_String ''BTC Price:'',
                LCD_Set_Cursor 0 1, LCD_Display_String ''$65,000  -1.25%'',
                RGB_LED_Set_Normal (Finite (- 5 / 4)), Buzzer_Off]\<rparr>)"
    using example_alarm_line [OF h] unfolding d alarm_line_def by simp
  from f g h(3,4) s show ?thesis unfolding a by (intro conjI) simp_all
qed

text \<open>
  C2. The selection loop, entered with index 0 and \<open>elapsed = 0\<close>, for every number \<open>N\<close> of
  presses that come within the window (\<open>gs\<close> gives the polls answering no before each press,
  \<open>N\<close> is its length): when the presses are followed by a full window without a press, the loop
  ends, it has consumed exactly these polls, made \<open>N\<close> polls that answered yes, and the
  selected index is \<open>N mod 12\<close> (12 is the length of the menu). Whenever the loop ends, the
  index is the number of polls that answered yes modulo 12. Each press advances the index by
  one modulo the menu length and sets \<open>elapsed\<close> to 0: whatever \<open>elapsed\<close> was, after a press the
  loop ends only when forty further ticks of 100 ms, that is the full 4000 ms, have passed
  without a press (the first of them in the pass of the press itself, after the 300 ms debounce
  delay, the other 39 each after a poll that answers no); with fewer polls the loop is still
  waiting.
\<close>

theorem threshold_cycling:
  "(elapsed s = 0 \<longrightarrow> adjustable_index s = 0 \<longrightarrow> in_window 40 gs \<longrightarrow>
      polls s = press_polls gs @ replicate (if gs = [] then 40 else 39) False @ rest \<longrightarrow>
      (\<exists>s2 es. select_loop s = Inr s2 \<and>
         adjustable_index s2 = int (length gs) mod total_thresholds \<and>
         elapsed s2 = 4000 \<and> polls s2 = rest \<and> trace s2 = trace s @ es \<and>
         count_list es (PushButton_Pressed True) = length gs)) \<and>
   (select_loop s = Inr s' \<longrightarrow> adjustable_index s = 0 \<longrightarrow>
      (\<exists>es. trace s' = trace s @ es \<and>
            adjustable_index s' =
              int (count_list es (PushButton_Pressed True)) mod total_thresholds)) \<and>
   adjustable_index (select_press s) = (adjustable_index s + 1) smod total_thresholds \<and>
   elapsed (select_press s) = 0 \<and>
   (elapsed s < 4000 \<longrightarrow> polls s = True # replicate 39 False @ rest \<longrightarrow>
      select_loop s =
        Inr (s\<lparr>adjustable_index := (adjustable_index s + 1) smod total_thresholds,
               threshStr := sprintf_threshStr
                              (thresholds ! nat ((adjustable_index s + 1) smod total_thresholds)),
               elapsed := 4000, polls := rest,
               trace := trace s @
                 [PushButton_Pressed True, LCD_Set_Cursor 0 1,
                  LCD_Display_String
                    (sprintf_threshStr
                       (thresholds ! nat ((adjustable_index s + 1) smod total_thresholds))),
                  DelayMs 300, DelayMs 100] @
                 concat (replicate 39 [PushButton_Pressed False, DelayMs 100])\<rparr>)) \<and>
   (elapsed s < 4000 \<longrightarrow> n < 39 \<longrightarrow> polls s = True # replicate n False \<longrightarrow>
      select_loop s = Inl PollsExhausted)"
proof (intro conjI impI)
  show "\<exists>s2 es. select_loop s = Inr s2 \<and>
         adjustable_index s2 = int (length gs) mod total_thresholds \<and>
         elapsed s2 = 4000 \<and> polls s2 = rest \<and> trace s2 = trace s @ es \<and>
         count_list es (PushButton_Pressed True) = length gs"
    if "elapsed s = 0" "adjustable_index s = 0" "in_window 40 gs"
      "polls s = press_polls gs @ replicate (if gs = [] then 40 else 39) False @ rest"
    using that by (rule select_loop_from_start)
  show "\<exists>es. trace s' = trace s @ es \<and>
            adjustable_index s' =
              int (count_list es (PushButton_Pressed True)) mod total_thresholds"
    if "select_loop s = Inr s'" "adjustable_index s = 0"
    using select_loop_presses [OF that(1)] that(2) by (simp add: total_thresholds_12)
  show "adjustable_index (select_press s) = (adjustable_index s + 1) smod total_thresholds"
    by (simp add: select_press_def call_def calls_def Let_def)
  show "elapsed (select_press s) = 0"
    by (simp add: select_press_def call_def calls_def Let_def)
  show "select_loop s =
        Inr (s\<lparr>adjustable_index := (adjustable_index s + 1) smod total_thresholds,
               threshStr := sprintf_threshStr
                              (thresholds ! nat ((adjustable_index s + 1) smod total_thresholds)),
               elapsed := 4000, polls := rest,
               trace := trace s @
                 [PushButton_Pressed True, LCD_Set_Cursor 0 1,
                  LCD_Display_String
                    (sprintf_threshStr
                       (thresholds ! nat ((adjustable_index s + 1) smod total_thresholds))),
                  DelayMs 300, DelayMs 100] @
                 concat (replicate 39 [PushButton_Pressed False, DelayMs 100])\<rparr>)"
    if "elapsed s < 4000" "polls s = True # replicate 39 False @ rest"
    using that by (rule select_loop_after_press)
  show "select_loop s = Inl PollsExhausted"
    if "elapsed s < 4000" "n < 39" "polls s = True # replicate n False"
    using that by (rule select_loop_after_press_waiting)
qed

theorem threshold_cycling_witness:
  "elapsed (example_state [] (Finite 0) 0 (press_polls [3, 5] @ replicate 39 False)) = 0 \<and>
   adjustable_index (example_state [] (Finite 0) 0 (press_polls [3, 5] @ replicate 39 False)) = 0 \<and>
   in_window 40 [3, 5] \<and>
   (\<exists>s2 es. select_loop (example_state [] (Finite 0) 0 (press_polls [3, 5] @ replicate 39 False)) =
              Inr s2 \<and>
      adjustable_index s2 = 2 \<and> elapsed s2 = 4000 \<and> polls s2 = [] \<and> trace s2 = es \<and>
      count_list es (PushButton_Pressed True) = 2) \<and>
   in_window 40 [0, 0, 0, 0, 0, 0, 0, 0, 0, 0, 0, 0, 0] \<and>
   (\<exists>s2. select_loop (example_state [] (Finite 0) 0
              (press_polls [0, 0, 0, 0, 0, 0, 0, 0, 0, 0, 0, 0, 0] @ replicate 39 False)) =
              Inr s2 \<and>
      adjustable_index s2 = 1 \<and> polls s2 = []) \<and>
   select_loop (example_state [] (Finite 0) 0 (True # replicate 39 False)) =
     Inr ((example_state [] (Finite 0) 0 (True # replicate 39 False))
            \<lparr>adjustable_index := 1, threshStr := ''$20000  '', elapsed := 4000, polls := [],
             trace := [PushButton_Pressed True, LCD_Set_Cursor 0 1,
                       LCD_Display_String ''$20000  '', DelayMs 300, DelayMs 100] @
                      concat (replicate 39 [PushButton_Pressed False, DelayMs 100])\<rparr>) \<and>
   adjustable_index (example_state [] (Finite 0) 0 (True # replicate 39 False)) = 0 \<and>
   (\<exists>es. trace ((example_state [] (Finite 0) 0 (True # replicate 39 False))
            \<lparr>adjustable_index := 1, threshStr := ''$20000  '', elapsed := 4000, polls := [],
             trace := [PushButton_Pressed True, LCD_Set_Cursor 0 1,
                       LCD_Display_String ''$20000  '', DelayMs 300, DelayMs 100] @
                      concat (replicate 39 [PushButton_Pressed False, DelayMs 100])\<rparr>) = es \<and>
         int (count_list es (PushButton_Pressed True)) mod total_thresholds = 1) \<and>
   adjustable_index (select_press (example_state [] (Finite 0) 0 (True # replicate 39 False))) = 1 \<and>
   elapsed (select_press (example_state [] (Finite 0) 0 (True # replicate 39 False))) = 0 \<and>
   elapsed (example_state [] (Finite 0) 0 (True # replicate 39 False)) < 4000 \<and>
   polls (example_state [] (Finite 0) 0 (True # replicate 39 False)) =
     True # replicate 39 False @ [] \<and>
   elapsed (example_state [] (Finite 0) 0 (True # replicate 5 False)) < 4000 \<and>
   (5 :: nat) < 39 \<and>
   polls (example_state [] (Finite 0) 0 (True # replicate 5 False)) = True # replicate 5 False \<and>
   select_loop (example_state [] (Finite 0) 0 (True # replicate 5 False)) = Inl PollsExhausted"
proof -
  let ?a = "example_state [] (Finite 0) 0 (True # replicate 39 False)"
  let ?b = "example_state [] (Finite 0) 0 (True # replicate 5 False)"
  let ?c = "example_state [] (Finite 0) 0 (press_polls [3, 5] @ replicate 39 False)"
  let ?g = "[0, 0, 0, 0, 0, 0, 0, 0, 0, 0, 0, 0, 0] :: nat list"
  let ?d = "example_state [] (Finite 0) 0 (press_polls ?g @ replicate 39 False)"
  let ?a' = "?a\<lparr>adjustable_index := 1, threshStr := ''$20000  '', elapsed := 4000, polls := [],
             trace := [PushButton_Pressed True, LCD_Set_Cursor 0 1,
                       LCD_Display_String ''$20000  '', DelayMs 300, DelayMs 100] @
                      concat (replicate 39 [PushButton_Pressed False, DelayMs 100])\<rparr>"
  have ea: "elapsed ?a < 4000" and pa: "polls ?a = True # replicate 39 False @ []"
    and ia: "adjustable_index ?a = 0" and ta: "trace ?a = []"
    by (simp_all add: example_state_def initial_state_def)
  have eb: "elapsed ?b < 4000" and pb: "polls ?b = True # replicate 5 False"
    by (simp_all add: example_state_def initial_state_def)
  have ec: "elapsed ?c = 0" and ic: "adjustable_index ?c = 0" and tc: "trace ?c = []"
    and pc: "polls ?c = press_polls [3, 5] @
               replicate (if [3, 5 :: nat] = [] then 40 else 39) False @ []"
    by (simp_all add: example_state_def initial_state_def)
  have wc: "in_window 40 [3, 5]" by simp
  have ed: "elapsed ?d = 0" and id: "adjustable_index ?d = 0"
    and pd: "polls ?d = press_polls ?g @ replicate (if ?g = [] then 40 else 39) False @ []"
    by (simp_all add: example_state_def initial_state_def)
  have wd: "in_window 40 ?g" by simp
  have m: "(adjustable_index ?a + 1) smod total_thresholds = 1"
    unfolding ia by (simp add: total_thresholds_12 signed_modulo_int_def)
  have th: "thresholds ! nat 1 = 20000" by (simp add: thresholds_def)
  note A = threshold_cycling [of ?a "[]" "[]" ?a' 5]
  note B = threshold_cycling [of ?b "[]" "[]" ?a' 5]
  note C = threshold_cycling [of ?c "[3, 5]" "[]" ?a' 5, THEN conjunct1, rule_format,
             OF ec ic wc pc]
  note D = threshold_cycling [of ?d ?g "[]" ?a' 5, THEN conjunct1, rule_format,
             OF ed id wd pd]
  from C obtain s2 es where "select_loop ?c = Inr s2"
    "adjustable_index s2 = int (length [3, 5 :: nat]) mod total_thresholds"
    "elapsed s2 = 4000" "polls s2 = []" "trace s2 = trace ?c @ es"
    "count_list es (PushButton_Pressed True) = length [3, 5 :: nat]"
    by blast
  then have "select_loop ?c = Inr s2 \<and> adjustable_index s2 = 2 \<and> elapsed s2 = 4000 \<and>
      polls s2 = [] \<and> trace s2 = es \<and> count_list es (PushButton_Pressed True) = 2"
    unfolding tc by (simp add: total_thresholds_12)
  then have rc: "\<exists>s2 es. select_loop ?c = Inr s2 \<and> adjustable_index s2 = 2 \<and>
      elapsed s2 = 4000 \<and> polls s2 = [] \<and> trace s2 = es \<and>
      count_list es (PushButton_Pressed True) = 2"
    by blast
  from D obtain s3 where "select_loop ?d = Inr s3"
    "adjustable_index s3 = int (length ?g) mod total_thresholds" "polls s3 = []"
    by blast
  then have "select_loop ?d = Inr s3 \<and> adjustable_index s3 = 1 \<and> polls s3 = []"
    by (simp add: total_thresholds_12)
  then have rd: "\<exists>s2. select_loop ?d = Inr s2 \<and> adjustable_index s2 = 1 \<and> polls s2 = []"
    by blast
  from A ea pa have ra: "select_loop ?a = Inr ?a'"
    unfolding m th sprintf_threshStr_20000 ta by simp
  from A ra ia obtain es where "trace ?a' = trace ?a @ es"
    "adjustable_index ?a' = int (count_list es (PushButton_Pressed True)) mod total_thresholds"
    by blast
  then have ex: "\<exists>es. trace ?a' = es \<and>
         int (count_list es (PushButton_Pressed True)) mod total_thresholds = 1"
    unfolding ta by simp
  from A m have sp: "adjustable_index (select_press ?a) = 1" "elapsed (select_press ?a) = 0"
    by simp_all
  from B eb pb have rb: "select_loop ?b = Inl PollsExhausted" by simp
  have lt: "(5 :: nat) < 39" by simp
  from ec ic wc rc wd rd ra ia ex sp ea pa eb lt pb rb show ?thesis by (intro conjI)
qed

text \<open>
  C3. If the button is not pressed during the whole selection window (the forty polls, 100 ms
  apart, all answer no), the selection ends after these polls and \<open>local_threshold\<close> is the
  first menu entry, \<open>thresholds[0] = 10000\<close>; no later poll is consumed.
\<close>

theorem lock_default_threshold:
  "\<exists>s'. main buf thr al (replicate 40 False @ rest) [] = Inr s' \<and>
        local_threshold s' = int_to_float (thresholds ! 0) \<and>
        local_threshold s' = Finite 10000 \<and>
        adjustable_index s' = 0 \<and> polls s' = rest"
  by (rule main_no_press)

text \<open>
  C4. The input line \<open>"BTC Price: $63250.50, 24h Change: -1.25%\n"\<close> parses to
  \<open>price = 63250.50\<close> and \<open>change = -1.25\<close> (both are floats, so the conversion is exact),
  and the string written at row 1 of the display (the second row) for that update is
  \<open>"$63,250  -1.25%"\<close>: from any state with an empty line buffer of 41 to 256 bytes, whenever
  the program has worked the line off (with an acknowledged alarm before, if the price is below
  the threshold), its last calls are the rendering of \<open>"BTC Price:"\<close> and of that string.
\<close>

theorem parse_round_trip:
  assumes "index s = 0" and "40 < length (uart_buffer s)" and "length (uart_buffer s) \<le> 256"
    and "main_loop (''BTC Price: $63250.50, 24h Change: -1.25%'' @ [CHR 0x0A]) s = Inr s'"
  shows "sscanf ''BTC Price: $63250.50, 24h Change: -1.25%''
           ''BTC Price: $%f, 24h Change: %f%%'' = [Finite (126501 / 2), Finite (- 5 / 4)] \<and>
         price s' = Finite (126501 / 2) \<and> change s' = Finite (- 5 / 4) \<and>
         line2 s' = ''$63,250  -1.25%'' \<and>
         (\<exists>pre. trace s' = pre @
            [LCD_Clear, LCD_Set_Cursor 0 0, LCD_Display_String ''BTC Price:'',
             LCD_Set_Cursor 0 1, LCD_Display_String ''$63,250  -1.25%'',
             RGB_LED_Set_Normal (Finite (- 5 / 4)), Buzzer_Off])"
proof -
  let ?L = "''BTC Price: $63250.50, 24h Change: -1.25%''"
  let ?s1 = "s\<lparr>uart_buffer := ?L @ CHR 0x00 # drop (Suc (length ?L)) (uart_buffer s),
               index := word_of_nat (length ?L),
               trace := trace s @ map UART1_Input_Character (?L @ [CHR 0x0A])\<rparr>"
  have "main_loop (?L @ [CHR 0x0A]) s =
          and_then (process_line ?s1) (\<lambda>s2. Inr (s2\<lparr>index := 0\<rparr>))"
    using assms(1-3) by (intro main_loop_line) simp_all
  with assms(4) obtain s2 where p: "process_line ?s1 = Inr s2" and s': "s' = s2\<lparr>index := 0\<rparr>"
    by (auto simp: and_then_def split: sum.splits)
  have "c_string (uart_buffer ?s1) = ?L"
    by (simp add: c_string_line [of ?L, simplified] c_string_no_NUL [of ?L, simplified])
  then have v: "sscanf (c_string (uart_buffer ?s1)) ''BTC Price: $%f, 24h Change: %f%%'' =
              [Finite (126501 / 2), Finite (- 5 / 4)]"
    by (simp only: sscanf_63250)
  note R = process_line_rendered [OF v p, unfolded sprintf_63250]
  have "price s' = Finite (126501 / 2)" "change s' = Finite (- 5 / 4)"
    "line2 s' = ''$63,250  -1.25%''"
    "\<exists>pre. trace s' = pre @
            [LCD_Clear, LCD_Set_Cursor 0 0, LCD_Display_String ''BTC Price:'',
             LCD_Set_Cursor 0 1, LCD_Display_String ''$63,250  -1.25%'',
             RGB_LED_Set_Normal (Finite (- 5 / 4)), Buzzer_Off]"
    using R unfolding s' by simp_all
  with sscanf_63250 show ?thesis by (intro conjI)
qed


theorem parse_round_trip_witness:
  "index (example_state [] (Finite 10000) 1 []) = 0 \<and>
   40 < length (uart_buffer (example_state [] (Finite 10000) 1 [])) \<and>
   length (uart_buffer (example_state [] (Finite 10000) 1 [])) \<le> 256 \<and>
   main_loop (''BTC Price: $63250.50, 24h Change: -1.25%'' @ [CHR 0x0A])
     (example_state [] (Finite 10000) 1 []) =
   Inr ((example_state [] (Finite 10000) 1 [])
          \<lparr>uart_buffer := ''BTC Price: $63250.50, 24h Change: -1.25%'' @ CHR 0x00 #
                            replicate 23 (CHR 0x00),
           price := Finite (126501 / 2), change := Finite (- 5 / 4),
           line2 := ''$63,250  -1.25%'', alarmStopped := 0,
           trace := map UART1_Input_Character
                      (''BTC Price: $63250.50, 24h Change: -1.25%'' @ [CHR 0x0A]) @
             [LCD_Clear, LCD_Set_Cursor 0 0, LCD_Display_String ''BTC Price:'',
              LCD_Set_Cursor 0 1, LCD_Display_String ''$63,250  -1.25%'',
              RGB_LED_Set_Normal (Finite (- 5 / 4)), Buzzer_Off]\<rparr>) \<and>
   sscanf ''BTC Price: $63250.50, 24h Change: -1.25%''
     ''BTC Price: $%f, 24h Change: %f%%'' = [Finite (126501 / 2), Finite (- 5 / 4)] \<and>
   line2 (projr (main_loop (''BTC Price: $63250.50, 24h Change: -1.25%'' @ [CHR 0x0A])
                   (example_state [] (Finite 10000) 1 []))) = ''$63,250  -1.25%''"
proof -
  let ?e = "example_state [] (Finite 10000) 1 []"
  have h1: "index ?e = 0" by (simp add: example_state_def initial_state_def)
  have h2: "40 < length (uart_buffer ?e)" by (simp add: example_state_def initial_state_def)
  have h3: "length (uart_buffer ?e) \<le> 256" by (simp add: example_state_def initial_state_def)
  note T = parse_round_trip [OF h1 h2 h3 example_run_63250]
  from T have "line2 (projr (main_loop (''BTC Price: $63250.50, 24h Change: -1.25%'' @ [CHR 0x0A]) ?e))
                 = ''$63,250  -1.25%''"
    by (simp only: example_run_63250 sum.sel)
  with T h1 h2 h3 example_run_63250 show ?thesis by (intro conjI) simp_all
qed

text \<open>
  C5. For every byte that ends a line (line feed, carriage return or a full buffer) whose
  NUL-terminated text does not give both numbers (as \<open>"garbage\n"\<close>), the pass through the
  main loop returns normally: it clears the display and writes \<open>"Loading..."\<close>, clears bits 0
  and 1 of \<open>GPIOD->DATA\<close> (both LED channels) and switches the buzzer off, and it resets the
  cursor to 0; the button is not polled. The program goes on accepting bytes: the next plain
  byte is stored at position 0, and the text handed to the parser at the next line feed consists
  of the bytes received after the malformed line only.
\<close>

theorem malformed_line:
  assumes "line_ends c s" and "within_buffer s"
    and "length (sscanf (c_string ((uart_buffer s)[unat (index s) := CHR 0x00]))
                   ''BTC Price: $%f, 24h Change: %f%%'') \<noteq> 2"
  shows "\<exists>s'. main_step c s = Inr s' \<and>
           trace s' = trace s @
             [LCD_Clear, LCD_Set_Cursor 0 0, LCD_Display_String ''Loading...'',
              GPIOD_DATA_AND (NOT 0x03), Buzzer_Off] \<and>
           (d AND NOT 0x03) AND 0x03 = (0 :: 32 word) \<and>
           index s' = 0 \<and> polls s' = polls s \<and>
           uart_buffer s' = (uart_buffer s)[unat (index s) := CHR 0x00] \<and>
           (\<not> line_ends c' s' \<longrightarrow>
              main_step c' s' = Inr (s'\<lparr>uart_buffer := (uart_buffer s')[0 := c'], index := 1\<rparr>)) \<and>
           (length cs < length (uart_buffer s) \<longrightarrow> length (uart_buffer s) \<le> 256 \<longrightarrow>
            CHR 0x0A \<notin> set cs \<longrightarrow> CHR 0x0D \<notin> set cs \<longrightarrow>
              (\<exists>s''. main_loop (cs @ [CHR 0x0A]) s' =
                       and_then (process_line s'') (\<lambda>s2. Inr (s2\<lparr>index := 0\<rparr>)) \<and>
                     c_string (uart_buffer s'') = c_string cs))"
proof -
  let ?s1 = "s\<lparr>uart_buffer := (uart_buffer s)[unat (index s) := CHR 0x00]\<rparr>"
  from process_line_malformed [of ?s1] assms(3) obtain p where
    pl: "process_line ?s1 =
           Inr (?s1\<lparr>price := p,
                  trace := trace ?s1 @
                    [LCD_Clear, LCD_Set_Cursor 0 0, LCD_Display_String ''Loading...'',
                     GPIOD_DATA_AND (NOT 0x03), Buzzer_Off]\<rparr>)"
    by auto
  let ?s' = "?s1\<lparr>price := p,
                  trace := trace ?s1 @
                    [LCD_Clear, LCD_Set_Cursor 0 0, LCD_Display_String ''Loading...'',
                     GPIOD_DATA_AND (NOT 0x03), Buzzer_Off], index := 0\<rparr>"
  have ms: "main_step c s = Inr ?s'"
    using main_step_flush [OF assms(1,2)] pl by (simp add: and_then_def)
  have nx: "main_step c' ?s' = Inr (?s'\<lparr>uart_buffer := (uart_buffer ?s')[0 := c'], index := 1\<rparr>)"
    if "\<not> line_ends c' ?s'"
    using main_step_append [OF that] by simp
  have ln: "\<exists>s''. main_loop (cs @ [CHR 0x0A]) ?s' =
                       and_then (process_line s'') (\<lambda>s2. Inr (s2\<lparr>index := 0\<rparr>)) \<and>
                     c_string (uart_buffer s'') = c_string cs"
    if "length cs < length (uart_buffer s)" "length (uart_buffer s) \<le> 256"
      "CHR 0x0A \<notin> set cs" "CHR 0x0D \<notin> set cs"
  proof -
    have "main_loop (cs @ [CHR 0x0A]) ?s' =
       and_then
         (process_line
            (?s'\<lparr>uart_buffer := cs @ CHR 0x00 # drop (Suc (length cs)) (uart_buffer ?s'),
               index := word_of_nat (length cs),
               trace := trace ?s' @ map UART1_Input_Character (cs @ [CHR 0x0A])\<rparr>))
         (\<lambda>s2. Inr (s2\<lparr>index := 0\<rparr>))"
      using that by (intro main_loop_line) simp_all
    moreover have "c_string (uart_buffer
            (?s'\<lparr>uart_buffer := cs @ CHR 0x00 # drop (Suc (length cs)) (uart_buffer ?s'),
               index := word_of_nat (length cs),
               trace := trace ?s' @ map UART1_Input_Character (cs @ [CHR 0x0A])\<rparr>)) = c_string cs"
      by (simp add: c_string_line)
    ultimately show ?thesis by blast
  qed
  from ms nx ln gpio_mask_clears [of d] show ?thesis
    by (intro exI [of _ ?s']) simp
qed


theorem malformed_line_witness:
  "line_ends (CHR 0x0A) ((example_state ''garbage'' (Finite 10000) 0 [])\<lparr>index := 7\<rparr>) \<and>
   within_buffer ((example_state ''garbage'' (Finite 10000) 0 [])\<lparr>index := 7\<rparr>) \<and>
   length (sscanf (c_string
       ((uart_buffer ((example_state ''garbage'' (Finite 10000) 0 [])\<lparr>index := 7\<rparr>))
          [unat (index ((example_state ''garbage'' (Finite 10000) 0 [])\<lparr>index := 7\<rparr>)) := CHR 0x00]))
      ''BTC Price: $%f, 24h Change: %f%%'') \<noteq> 2 \<and>
   (\<exists>s'. main_step (CHR 0x0A) ((example_state ''garbage'' (Finite 10000) 0 [])\<lparr>index := 7\<rparr>) = Inr s' \<and>
      trace s' = [LCD_Clear, LCD_Set_Cursor 0 0, LCD_Display_String ''Loading...'',
                  GPIOD_DATA_AND (NOT 0x03), Buzzer_Off] \<and>
      (0xFF AND NOT 0x03) AND 0x03 = (0 :: 32 word) \<and>
      index s' = 0 \<and> polls s' = [] \<and>
      \<not> line_ends (CHR ''B'') s' \<and>
      main_step (CHR ''B'') s' = Inr (s'\<lparr>uart_buffer := (uart_buffer s')[0 := CHR ''B''], index := 1\<rparr>) \<and>
      (\<exists>s''. main_loop (''BTC'' @ [CHR 0x0A]) s' =
                and_then (process_line s'') (\<lambda>s2. Inr (s2\<lparr>index := 0\<rparr>)) \<and>
              c_string (uart_buffer s'') = ''BTC'')) \<and>
   main_loop (''garbage'' @ [CHR 0x0A]) (example_state [] (Finite 10000) 0 []) =
     Inr ((example_state [] (Finite 10000) 0 [])
            \<lparr>uart_buffer := ''garbage'' @ CHR 0x00 # replicate 56 (CHR 0x00),
             trace := map UART1_Input_Character (''garbage'' @ [CHR 0x0A]) @
               [LCD_Clear, LCD_Set_Cursor 0 0, LCD_Display_String ''Loading...'',
                GPIOD_DATA_AND (NOT 0x03), Buzzer_Off]\<rparr>)"
proof -
  let ?s = "(example_state ''garbage'' (Finite 10000) 0 [])\<lparr>index := 7\<rparr>"
  have h1: "line_ends (CHR 0x0A) ?s" by (simp add: line_ends_def)
  have h2: "within_buffer ?s"
    by (simp add: within_buffer_def example_state_def initial_state_def)
  have b: "(uart_buffer ?s)[unat (index ?s) := CHR 0x00] = ''garbage'' @ CHR 0x00 # replicate 56 (CHR 0x00)"
  proof -
    have r: "replicate 57 (CHR 0x00) = CHR 0x00 # replicate 56 (CHR 0x00)"
      using replicate_Suc [of 56 "CHR 0x00"] by simp
    show ?thesis
      by (simp add: example_state_def initial_state_def list_update_append r)
  qed
  have h3: "length (sscanf (c_string ((uart_buffer ?s)[unat (index ?s) := CHR 0x00]))
              ''BTC Price: $%f, 24h Change: %f%%'') \<noteq> 2"
    unfolding b
    by (simp add: c_string_line [of "''garbage''", simplified] sscanf_garbage
        c_string_no_NUL [of "''garbage''", simplified])
  from malformed_line [OF h1 h2 h3, of "0xFF" "CHR ''B''" "''BTC''"]
  obtain s' where
    m: "main_step (CHR 0x0A) ?s = Inr s'" and
    t: "trace s' = trace ?s @ [LCD_Clear, LCD_Set_Cursor 0 0, LCD_Display_String ''Loading...'',
                  GPIOD_DATA_AND (NOT 0x03), Buzzer_Off]" and
    g: "(0xFF AND NOT 0x03) AND 0x03 = (0 :: 32 word)" and
    i: "index s' = 0" and p: "polls s' = polls ?s" and
    u: "uart_buffer s' = (uart_buffer ?s)[unat (index ?s) := CHR 0x00]" and
    nx: "\<not> line_ends (CHR ''B'') s' \<longrightarrow>
          main_step (CHR ''B'') s' = Inr (s'\<lparr>uart_buffer := (uart_buffer s')[0 := CHR ''B''], index := 1\<rparr>)" and
    ln: "length ''BTC'' < length (uart_buffer ?s) \<longrightarrow> length (uart_buffer ?s) \<le> 256 \<longrightarrow>
            CHR 0x0A \<notin> set ''BTC'' \<longrightarrow> CHR 0x0D \<notin> set ''BTC'' \<longrightarrow>
              (\<exists>s''. main_loop (''BTC'' @ [CHR 0x0A]) s' =
                       and_then (process_line s'') (\<lambda>s2. Inr (s2\<lparr>index := 0\<rparr>)) \<and>
                     c_string (uart_buffer s'') = c_string ''BTC'')"
    by blast
  have nl: "\<not> line_ends (CHR ''B'') s'"
    unfolding line_ends_def BUFFER_SIZE_def u b i by simp
  have t0: "trace ?s = []" "polls ?s = []" "length (uart_buffer ?s) = 64"
    by (simp_all add: example_state_def initial_state_def)
  have cs: "c_string ''BTC'' = ''BTC''" by (simp add: c_string_def)
  from ln t0 cs have ln': "\<exists>s''. main_loop (''BTC'' @ [CHR 0x0A]) s' =
                       and_then (process_line s'') (\<lambda>s2. Inr (s2\<lparr>index := 0\<rparr>)) \<and>
                     c_string (uart_buffer s'') = ''BTC''"
    by simp
  from nx nl have nx': "main_step (CHR ''B'') s' =
      Inr (s'\<lparr>uart_buffer := (uart_buffer s')[0 := CHR ''B''], index := 1\<rparr>)" by simp
  have "\<exists>s'. main_step (CHR 0x0A) ?s = Inr s' \<and>
      trace s' = [LCD_Clear, LCD_Set_Cursor 0 0, LCD_Display_String ''Loading...'',
                  GPIOD_DATA_AND (NOT 0x03), Buzzer_Off] \<and>
      (0xFF AND NOT 0x03) AND 0x03 = (0 :: 32 word) \<and>
      index s' = 0 \<and> polls s' = [] \<and>
      \<not> line_ends (CHR ''B'') s' \<and>
      main_step (CHR ''B'') s' = Inr (s'\<lparr>uart_buffer := (uart_buffer s')[0 := CHR ''B''], index := 1\<rparr>) \<and>
      (\<exists>s''. main_loop (''BTC'' @ [CHR 0x0A]) s' =
                and_then (process_line s'') (\<lambda>s2. Inr (s2\<lparr>index := 0\<rparr>)) \<and>
              c_string (uart_buffer s'') = ''BTC'')"
    using m t g i p nl nx' ln' t0 by (intro exI [of _ s']) simp
  with h1 h2 h3 garbage_line show ?thesis by (intro conjI)
qed

text \<open>
  C6. From a state whose write cursor points into \<open>uart_buffer\<close>, and so from the start of
  \<open>main\<close> with a buffer that is not empty, for every sequence of input bytes: no store ever
  falls outside the buffer, and the cursor stays at most \<open>BUFFER_SIZE - 1\<close>. A byte for which the condition of
  line 126 holds (line feed, carriage return, or cursor at \<open>BUFFER_SIZE - 1\<close>) makes the
  program NUL-terminate the buffer at the cursor and hand it to the parser. With a buffer of at
  most 256 bytes (the cursor is a \<open>uint8_t\<close>), \<open>BUFFER_SIZE - 1\<close> bytes other than line feed and
  carriage return, read from an empty buffer, bring the cursor to \<open>BUFFER_SIZE - 1\<close>, and the
  next byte, whatever it is, is not stored: these \<open>BUFFER_SIZE - 1\<close> bytes are terminated and
  parsed.
\<close>

theorem line_buffer_bounds:
  assumes "within_buffer s"
  shows "main_loop cs s \<noteq> Inl OutOfBounds \<and>
         (main_loop cs s = Inr s' \<longrightarrow>
            uint (index s') \<le> BUFFER_SIZE s' - 1 \<and> BUFFER_SIZE s' = BUFFER_SIZE s) \<and>
         (line_ends c s \<longrightarrow>
            main_step c s =
              and_then
                (process_line (s\<lparr>uart_buffer := (uart_buffer s)[unat (index s) := CHR 0x00]\<rparr>))
                (\<lambda>s2. Inr (s2\<lparr>index := 0\<rparr>))) \<and>
         (index s = 0 \<longrightarrow> BUFFER_SIZE s \<le> 256 \<longrightarrow> int (length bs) = BUFFER_SIZE s - 1 \<longrightarrow>
          CHR 0x0A \<notin> set bs \<longrightarrow> CHR 0x0D \<notin> set bs \<longrightarrow>
            (\<exists>s1. main_loop bs s = Inr s1 \<and> uint (index s1) = BUFFER_SIZE s - 1 \<and>
                  line_ends x s1 \<and>
                  main_step x s1 =
                    and_then (process_line (s1\<lparr>uart_buffer := bs @ [CHR 0x00]\<rparr>))
                      (\<lambda>s2. Inr (s2\<lparr>index := 0\<rparr>)))) \<and>
         (buf \<noteq> [] \<longrightarrow> main buf thr al ps ds \<noteq> Inl OutOfBounds)"
proof (intro conjI impI)
  show "main buf thr al ps ds \<noteq> Inl OutOfBounds" if "buf \<noteq> []"
    using that by (rule main_within)
  show "main_loop cs s \<noteq> Inl OutOfBounds"
    using main_loop_within [OF assms, of cs] by simp
  show "uint (index s') \<le> BUFFER_SIZE s' - 1" if "main_loop cs s = Inr s'"
  proof -
    from main_loop_within [OF assms, of cs] that have "within_buffer s'" by simp
    then show ?thesis by (rule within_buffer_uint)
  qed
  show "BUFFER_SIZE s' = BUFFER_SIZE s" if "main_loop cs s = Inr s'"
    using main_loop_within [OF assms, of cs] that by (simp add: BUFFER_SIZE_def)
  show "main_step c s =
          and_then
            (process_line (s\<lparr>uart_buffer := (uart_buffer s)[unat (index s) := CHR 0x00]\<rparr>))
            (\<lambda>s2. Inr (s2\<lparr>index := 0\<rparr>))" if "line_ends c s"
    using main_step_flush [OF that assms] .
  show "\<exists>s1. main_loop bs s = Inr s1 \<and> uint (index s1) = BUFFER_SIZE s - 1 \<and>
              line_ends x s1 \<and>
              main_step x s1 =
                and_then (process_line (s1\<lparr>uart_buffer := bs @ [CHR 0x00]\<rparr>))
                  (\<lambda>s2. Inr (s2\<lparr>index := 0\<rparr>))"
    if "index s = 0" "BUFFER_SIZE s \<le> 256" "int (length bs) = BUFFER_SIZE s - 1"
      "CHR 0x0A \<notin> set bs" "CHR 0x0D \<notin> set bs"
    using that by (rule main_loop_full)
qed


theorem line_buffer_bounds_witness:
  "within_buffer (initial_state ''????'' (Finite 10000) 0 []) \<and>
   main_loop ''ab'' (initial_state ''????'' (Finite 10000) 0 []) \<noteq> Inl OutOfBounds \<and>
   main_loop ''ab'' (initial_state ''????'' (Finite 10000) 0 []) =
     Inr (projr (main_loop ''ab'' (initial_state ''????'' (Finite 10000) 0 []))) \<and>
   uint (index (projr (main_loop ''ab'' (initial_state ''????'' (Finite 10000) 0 []))))
     \<le> BUFFER_SIZE (projr (main_loop ''ab'' (initial_state ''????'' (Finite 10000) 0 []))) - 1 \<and>
   BUFFER_SIZE (projr (main_loop ''ab'' (initial_state ''????'' (Finite 10000) 0 []))) = 4 \<and>
   line_ends (CHR 0x0A) (initial_state ''????'' (Finite 10000) 0 []) \<and>
   main_step (CHR 0x0A) (initial_state ''????'' (Finite 10000) 0 []) =
     and_then
       (process_line ((initial_state ''????'' (Finite 10000) 0 [])
                        \<lparr>uart_buffer := [CHR 0x00, CHR ''?'', CHR ''?'', CHR ''?'']\<rparr>))
       (\<lambda>s2. Inr (s2\<lparr>index := 0\<rparr>)) \<and>
   index (initial_state ''????'' (Finite 10000) 0 []) = 0 \<and>
   BUFFER_SIZE (initial_state ''????'' (Finite 10000) 0 []) \<le> 256 \<and>
   int (length ''abc'') = BUFFER_SIZE (initial_state ''????'' (Finite 10000) 0 []) - 1 \<and>
   CHR 0x0A \<notin> set ''abc'' \<and> CHR 0x0D \<notin> set ''abc'' \<and>
   (\<exists>s1. main_loop ''abc'' (initial_state ''????'' (Finite 10000) 0 []) = Inr s1 \<and>
         uint (index s1) = 3 \<and> line_ends (CHR ''d'') s1 \<and>
         main_step (CHR ''d'') s1 =
           and_then (process_line (s1\<lparr>uart_buffer := ''abc'' @ [CHR 0x00]\<rparr>))
             (\<lambda>s2. Inr (s2\<lparr>index := 0\<rparr>))) \<and>
   main_loop ''abcd'' (initial_state ''????'' (Finite 10000) 0 []) =
     Inr ((initial_state ''????'' (Finite 10000) 0 [])
            \<lparr>uart_buffer := ''abc'' @ [CHR 0x00],
             trace := [UART1_Input_Character (CHR ''a''), UART1_Input_Character (CHR ''b''),
                       UART1_Input_Character (CHR ''c''), UART1_Input_Character (CHR ''d''),
                       LCD_Clear, LCD_Set_Cursor 0 0, LCD_Display_String ''Loading...'',
                       GPIOD_DATA_AND (NOT 0x03), Buzzer_Off]\<rparr>) \<and>
   ''????'' \<noteq> [] \<and>
   main ''????'' (Finite 0) 0 (replicate 40 False) ''abcd'' \<noteq> Inl OutOfBounds"
proof -
  let ?s = "initial_state ''????'' (Finite 10000) 0 []"
  have w: "within_buffer ?s" by (simp add: within_buffer_def initial_state_def)
  have i: "index ?s = 0" by (simp add: initial_state_def)
  have B: "BUFFER_SIZE ?s = 4" by (simp add: BUFFER_SIZE_def initial_state_def)
  have e: "line_ends (CHR 0x0A) ?s" by (simp add: line_ends_def)
  have r: "main_loop ''ab'' ?s = Inr (projr (main_loop ''ab'' ?s))"
    by (intro Inr_projr [OF main_loop_fill]) (simp_all add: initial_state_def)
  note T = line_buffer_bounds [OF w, of "''ab''" "projr (main_loop ''ab'' ?s)" "CHR 0x0A"
      "''abc''" "CHR ''d''" "''????''" "Finite 0" 0 "replicate 40 False" "''abcd''"]
  have u: "(uart_buffer ?s)[unat (index ?s) := CHR 0x00] = [CHR 0x00, CHR ''?'', CHR ''?'', CHR ''?'']"
    by (simp add: initial_state_def)
  have full: "main_loop ''abcd'' ?s =
     Inr (?s\<lparr>uart_buffer := ''abc'' @ [CHR 0x00],
             trace := [UART1_Input_Character (CHR ''a''), UART1_Input_Character (CHR ''b''),
                       UART1_Input_Character (CHR ''c''), UART1_Input_Character (CHR ''d''),
                       LCD_Clear, LCD_Set_Cursor 0 0, LCD_Display_String ''Loading...'',
                       GPIOD_DATA_AND (NOT 0x03), Buzzer_Off]\<rparr>)"
    by (simp add: initial_state_def main_step_def line_ends_def BUFFER_SIZE_def and_then_def
        store_uart_buffer_def call_def calls_def process_line_def process_malformed_def
        c_string_def sscanf_def isspace_def Let_def)
  from T w i B e r u full show ?thesis by simp
qed

text \<open>
  C7. A line that parses with \<open>price \<ge> local_threshold\<close> and is not handled as the normal
  update: \<open>"BTC Price: $105000.00, 24h Change: 10.50%"\<close> with the default threshold 10000.
  The line parses to 105000 and 10.5, the price is at least the threshold, and the text
  formatted for the second row is \<open>"$105,000  +10.50%"\<close>, 17 characters. With its closing NUL
  it takes 18 bytes; \<open>line2\<close> has 17 (line 66), so the \<open>sprintf\<close> of line 135 writes past the
  end of the array and the run over the line does not get to clear \<open>alarmStopped\<close> or to
  render. (For a text of at most 16 characters the line is handled as lemma
  \<open>process_line_normal\<close> says: \<open>alarmStopped\<close> is cleared, \<open>"BTC Price:"\<close> is written at row 0,
  the text at row 1, and the buzzer is off.)
\<close>

theorem normal_update_overflows_line2:
  "sscanf ''BTC Price: $105000.00, 24h Change: 10.50%'' ''BTC Price: $%f, 24h Change: %f%%'' =
     [Finite 105000, Finite (21 / 2)] \<and>
   float_ge (Finite 105000) (local_threshold (example_state [] (Finite 10000) 0 [])) \<and>
   sprintf_line2 (float_to_int (Finite 105000) sdiv 1000)
     (float_to_int (Finite 105000) smod 1000) (Finite (21 / 2)) = ''$105,000  +10.50%'' \<and>
   length ''$105,000  +10.50%'' = 17 \<and>
   main_loop (''BTC Price: $105000.00, 24h Change: 10.50%'' @ [CHR 0x0A])
     (example_state [] (Finite 10000) 0 []) = Inl Line2Overflow"
proof (intro conjI)
  show "sscanf ''BTC Price: $105000.00, 24h Change: 10.50%''
          ''BTC Price: $%f, 24h Change: %f%%'' = [Finite 105000, Finite (21 / 2)]"
    by (rule sscanf_105000)
  show "float_ge (Finite 105000) (local_threshold (example_state [] (Finite 10000) 0 []))"
    by (simp add: example_state_def initial_state_def)
  show "sprintf_line2 (float_to_int (Finite 105000) sdiv 1000)
     (float_to_int (Finite 105000) smod 1000) (Finite (21 / 2)) = ''$105,000  +10.50%''"
    by (rule sprintf_105000)
  show "length ''$105,000  +10.50%'' = 17" by simp
  show "main_loop (''BTC Price: $105000.00, 24h Change: 10.50%'' @ [CHR 0x0A])
     (example_state [] (Finite 10000) 0 []) = Inl Line2Overflow"
    by (rule example_run_105000)
qed



text \<open>
  C9. \<open>local_threshold\<close> is assigned once, after the selection loop, from the selected menu
  entry, and never in the main loop: one pass through the body of the main loop leaves it as it
  was, so does any number of passes, the selection loop does not touch it, and whenever \<open>main\<close>
  is waiting for the next byte it holds \<open>thresholds[adjustable_index]\<close>.
\<close>

theorem local_threshold_fixed:
  "(main_step c s = Inr s1 \<longrightarrow> local_threshold s1 = local_threshold s) \<and>
   (main_loop cs s = Inr s2 \<longrightarrow> local_threshold s2 = local_threshold s) \<and>
   (select_loop s = Inr s3 \<longrightarrow> local_threshold s3 = local_threshold s) \<and>
   (main buf thr al ps bs = Inr s4 \<longrightarrow>
      local_threshold s4 = int_to_float (thresholds ! nat (adjustable_index s4)))"
  using main_step_threshold [of c s s1] main_loop_threshold [of cs s s2]
    select_loop_threshold [of s s3] main_threshold [of buf thr al ps bs s4]
  by blast


theorem local_threshold_fixed_witness:
  "main_step (CHR ''x'') (example_state [] (Finite 70000) 0 (replicate 40 False)) =
     Inr (projr (main_step (CHR ''x'') (example_state [] (Finite 70000) 0 (replicate 40 False)))) \<and>
   local_threshold (projr (main_step (CHR ''x'')
       (example_state [] (Finite 70000) 0 (replicate 40 False)))) = Finite 70000 \<and>
   main_loop ''xy'' (example_state [] (Finite 70000) 0 (replicate 40 False)) =
     Inr (projr (main_loop ''xy'' (example_state [] (Finite 70000) 0 (replicate 40 False)))) \<and>
   local_threshold (projr (main_loop ''xy''
       (example_state [] (Finite 70000) 0 (replicate 40 False)))) = Finite 70000 \<and>
   select_loop (example_state [] (Finite 70000) 0 (replicate 40 False)) =
     Inr (projr (select_loop (example_state [] (Finite 70000) 0 (replicate 40 False)))) \<and>
   local_threshold (projr (select_loop
       (example_state [] (Finite 70000) 0 (replicate 40 False)))) = Finite 70000 \<and>
   main (replicate 64 (CHR ''?'')) (Finite 0) 0 (replicate 40 False) [] =
     Inr (projr (main (replicate 64 (CHR ''?'')) (Finite 0) 0 (replicate 40 False) [])) \<and>
   local_threshold (projr (main (replicate 64 (CHR ''?'')) (Finite 0) 0 (replicate 40 False) [])) =
     int_to_float (thresholds !
       nat (adjustable_index
         (projr (main (replicate 64 (CHR ''?'')) (Finite 0) 0 (replicate 40 False) []))))"
proof -
  let ?s = "example_state [] (Finite 70000) 0 (replicate 40 False)"
  let ?m = "main (replicate 64 (CHR ''?'')) (Finite 0) 0 (replicate 40 False) []"
  have n: "\<not> line_ends (CHR ''x'') ?s"
    by (simp add: line_ends_def BUFFER_SIZE_def example_state_def initial_state_def)
  have a: "main_step (CHR ''x'') ?s = Inr (projr (main_step (CHR ''x'') ?s))"
    by (rule Inr_projr [OF main_step_append [OF n]])
  have "unat (index ?s) + length ''xy'' < length (uart_buffer ?s)"
    by (simp add: example_state_def initial_state_def)
  moreover have "length (uart_buffer ?s) \<le> 256"
    by (simp add: example_state_def initial_state_def)
  ultimately have b: "main_loop ''xy'' ?s = Inr (projr (main_loop ''xy'' ?s))"
    by (intro Inr_projr [OF main_loop_fill]) simp_all
  have "unat (elapsed ?s) + 100 * 40 = 4000"
    by (simp add: example_state_def initial_state_def)
  moreover have "polls ?s = replicate 40 False @ []"
    by (simp add: example_state_def initial_state_def)
  ultimately have c: "select_loop ?s = Inr (projr (select_loop ?s))"
    by (rule Inr_projr [OF select_loop_quiet])
  have t: "local_threshold ?s = Finite 70000"
    by (simp add: example_state_def initial_state_def)
  from main_no_press [of "replicate 64 (CHR ''?'')" "Finite 0" 0 "[]"]
  have d: "?m = Inr (projr ?m)" by auto
  note T = local_threshold_fixed [of "CHR ''x''" ?s "projr (main_step (CHR ''x'') ?s)"
      "''xy''" "projr (main_loop ''xy'' ?s)" "projr (select_loop ?s)"
      "replicate 64 (CHR ''?'')" "Finite 0" 0 "replicate 40 False" "[]" "projr ?m"]
  from T a b c d t show ?thesis by simp
qed

text \<open>
  C10. The flag \<open>alarmStopped\<close> is written but never read: two runs of the main loop that
  start in states differing only in \<open>alarmStopped\<close>, on the same bytes and the same button
  answers, make the same calls (display, LED, buzzer, delays, polls) in the same order, consume
  the same polls, stop for the same reason if they stop, and end in states that differ at most
  in \<open>alarmStopped\<close>.
\<close>

theorem alarmStopped_never_read:
  "map_sum id trace (main_loop cs (s\<lparr>alarmStopped := a\<rparr>)) =
     map_sum id trace (main_loop cs (s\<lparr>alarmStopped := b\<rparr>)) \<and>
   map_sum id polls (main_loop cs (s\<lparr>alarmStopped := a\<rparr>)) =
     map_sum id polls (main_loop cs (s\<lparr>alarmStopped := b\<rparr>)) \<and>
   map_sum id forget_alarm (main_loop cs (s\<lparr>alarmStopped := a\<rparr>)) =
     map_sum id forget_alarm (main_loop cs (s\<lparr>alarmStopped := b\<rparr>))"
proof -
  have "forget_alarm (s\<lparr>alarmStopped := a\<rparr>) = forget_alarm (s\<lparr>alarmStopped := b\<rparr>)"
    by simp
  then have e: "map_sum id forget_alarm (main_loop cs (s\<lparr>alarmStopped := a\<rparr>)) =
     map_sum id forget_alarm (main_loop cs (s\<lparr>alarmStopped := b\<rparr>))"
    by (rule main_loop_forget)
  from e trace_forget [of "main_loop cs (s\<lparr>alarmStopped := a\<rparr>)"]
    trace_forget [of "main_loop cs (s\<lparr>alarmStopped := b\<rparr>)"]
  have t: "map_sum id trace (main_loop cs (s\<lparr>alarmStopped := a\<rparr>)) =
     map_sum id trace (main_loop cs (s\<lparr>alarmStopped := b\<rparr>))" by simp
  from e polls_forget [of "main_loop cs (s\<lparr>alarmStopped := a\<rparr>)"]
    polls_forget [of "main_loop cs (s\<lparr>alarmStopped := b\<rparr>)"]
  have p: "map_sum id polls (main_loop cs (s\<lparr>alarmStopped := a\<rparr>)) =
     map_sum id polls (main_loop cs (s\<lparr>alarmStopped := b\<rparr>))" by simp
  from e t p show ?thesis by simp
qed

end
